theory Spec2Isabelle
  imports Main
begin

section \<open>Input-parameter authentication by dynamic watermarking\<close>

text \<open>
  A shallow embedding of the Python package \<^verbatim>\<open>watermarking\<close>
  (\<^verbatim>\<open>difference_expansion.py\<close>, \<^verbatim>\<open>base_convert.py\<close>, \<^verbatim>\<open>crypto.py\<close>,
  \<^verbatim>\<open>graph.py\<close>, \<^verbatim>\<open>controller.py\<close>, \<^verbatim>\<open>encoder.py\<close>, \<^verbatim>\<open>wrap.py\<close>).

  Conventions.
  \<^item> Python's unbounded integers are \<open>int\<close>; \<open>//\<close> and \<open>%\<close> are \<open>div\<close> and \<open>mod\<close>
    (both round towards minus infinity). List positions, lengths and counters are \<open>nat\<close>.
  \<^item> \<open>bytes\<close> values and the text of messages are byte lists (\<open>string\<close>); text is kept
    as its UTF-8 encoding.
  \<^item> A raised exception is \<open>Inl\<close> of an \<open>error\<close> that carries the message, a returned
    value is \<open>Inr\<close>.
  \<^item> A function that contains a \<^verbatim>\<open>while True\<close> loop returns an \<open>option\<close>: \<open>None\<close> means
    that the loop never ends.
\<close>

subsection \<open>Exceptions and text\<close>

datatype error = ValueError string | IndexError string

text \<open>\<^verbatim>\<open>str(e)\<close> of an exception built from one message is the message.\<close>

fun error_text :: "error \<Rightarrow> string" where
  "error_text (ValueError m) = m"
| "error_text (IndexError m) = m"

text \<open>Decimal rendering of integers, as an f-string field \<^verbatim>\<open>{n}\<close> produces it.\<close>

definition digit_char :: "nat \<Rightarrow> char" where
  "digit_char d = char_of (48 + d)"

fun str_nat :: "nat \<Rightarrow> string" where
  "str_nat n = (if n < 10 then [digit_char n] else str_nat (n div 10) @ [digit_char (n mod 10)])"

declare str_nat.simps [simp del]

definition str_int :: "int \<Rightarrow> string" where
  "str_int i = (if i < 0 then CHR ''-'' # str_nat (nat (- i)) else str_nat (nat i))"

subsection \<open>Difference expansion (\<^verbatim>\<open>difference_expansion.py\<close>)\<close>

record EmbeddedPair =
  x_embedded :: int
  y_embedded :: int

definition floor_div2 :: "int \<Rightarrow> int" where
  "floor_div2 n = n div 2"

definition ceil_div2 :: "int \<Rightarrow> int" where
  "ceil_div2 n = - ((- n) div 2)"

definition embed_bit :: "int \<Rightarrow> int \<Rightarrow> int \<Rightarrow> error + EmbeddedPair" where
  "embed_bit x y b =
     (if b \<noteq> 0 \<and> b \<noteq> 1 then Inl (ValueError ''bit must be 0 or 1'')
      else
        let d = x - y;
            a = floor_div2 (x + y);
            d_prime = 2 * d + b;
            x_prime = a + ceil_div2 d_prime;
            y_prime = a - floor_div2 d_prime
        in Inr \<lparr>x_embedded = x_prime, y_embedded = y_prime\<rparr>)"

definition extract_bit_and_restore :: "int \<Rightarrow> int \<Rightarrow> int \<times> (int \<times> int)" where
  "extract_bit_and_restore x_prime y_prime =
     (let d_prime = x_prime - y_prime;
          b = d_prime mod 2;
          d = floor_div2 d_prime;
          a = floor_div2 (x_prime + y_prime);
          x = a + ceil_div2 d;
          y = a - floor_div2 d
      in (b, (x, y)))"

subsection \<open>Digit conversions (\<^verbatim>\<open>base_convert.py\<close>)\<close>

text \<open>
  The \<^verbatim>\<open>while n > 0\<close> loop of \<open>int_to_digits\<close>. It is entered only after the check
  \<open>base \<ge> 2\<close>; the recursion repeats that condition, which is what makes it end.
\<close>

function int_to_digits_loop :: "int \<Rightarrow> int \<Rightarrow> int list \<Rightarrow> int list" where
  "int_to_digits_loop n base digits =
     (if n > 0 \<and> base \<ge> 2 then int_to_digits_loop (n div base) base (digits @ [n mod base])
      else digits)"
  by pat_completeness auto
termination
proof (relation "measure (\<lambda>(n, base, digits). nat n)")
  show "wf (measure (\<lambda>(n, base, digits). nat n))" by simp
next
  fix n base :: int and digits :: "int list"
  assume a: "0 < n \<and> 2 \<le> base"
  then have "n div base < n" by (simp add: int_div_less_self)
  moreover from a have "0 \<le> n div base" by (simp add: pos_imp_zdiv_nonneg_iff)
  ultimately show "((n div base, base, digits @ [n mod base]), (n, base, digits))
      \<in> measure (\<lambda>(n, base, digits). nat n)"
    using a by simp
qed

declare int_to_digits_loop.simps [simp del]

definition int_to_digits :: "int \<Rightarrow> int \<Rightarrow> error + int list" where
  "int_to_digits n base =
     (if base < 2 then Inl (ValueError ''base must be >= 2'')
      else if n < 0 then Inl (ValueError ''n must be non-negative'')
      else if n = 0 then Inr [0]
      else Inr (rev (int_to_digits_loop n base [])))"

fun digits_to_int_loop :: "int list \<Rightarrow> int \<Rightarrow> int \<Rightarrow> error + int" where
  "digits_to_int_loop [] base n = Inr n"
| "digits_to_int_loop (d # ds) base n =
     (if d < 0 \<or> d \<ge> base
      then Inl (ValueError (''digit '' @ str_int d @ '' out of range for base '' @ str_int base))
      else digits_to_int_loop ds base (n * base + d))"

definition digits_to_int :: "int list \<Rightarrow> int \<Rightarrow> error + int" where
  "digits_to_int digits base =
     (if base < 2 then Inl (ValueError ''base must be >= 2'')
      else if digits = [] then Inl (ValueError ''digits must be non-empty'')
      else digits_to_int_loop digits base 0)"

definition bits_from_int :: "int \<Rightarrow> int \<Rightarrow> error + int list" where
  "bits_from_int n eta =
     (if eta \<le> 0 then Inl (ValueError ''eta must be > 0'')
      else case int_to_digits n 2 of
        Inl e \<Rightarrow> Inl e
      | Inr bits \<Rightarrow>
          if int (length bits) > eta then Inl (ValueError ''eta too small to represent n'')
          else Inr (replicate (nat (eta - int (length bits))) 0 @ bits))"

definition base_convert_digits :: "int list \<Rightarrow> int \<Rightarrow> int \<Rightarrow> error + int list" where
  "base_convert_digits digits base_from base_to =
     (case digits_to_int digits base_from of
        Inl e \<Rightarrow> Inl e
      | Inr n \<Rightarrow> int_to_digits n base_to)"

subsection \<open>Keyed primitives (\<^verbatim>\<open>crypto.py\<close>)\<close>

text \<open>
  \<^verbatim>\<open>_hmac_sha256(key, msg)\<close> is \<^verbatim>\<open>hmac.new(key, msg, hashlib.sha256).digest()\<close> of the
  Python standard library. It is not code of the package, so every function that hashes
  takes the keyed hash as its first argument \<open>H\<close>; what is proved holds for every \<open>H\<close>,
  HMAC-SHA256 among them.
\<close>

type_synonym bytes = string
type_synonym keyed_hash = "bytes \<Rightarrow> bytes \<Rightarrow> bytes"

text \<open>\<^verbatim>\<open>int.from_bytes(bs, byteorder="big", signed=False)\<close>\<close>

definition int_from_bytes :: "bytes \<Rightarrow> int" where
  "int_from_bytes bs = foldl (\<lambda>a c. a * 256 + of_char c) 0 bs"

text \<open>The 64-bit value \<open>r\<close> that all three routines read off a digest.\<close>

definition hash_value :: "keyed_hash \<Rightarrow> bytes \<Rightarrow> bytes \<Rightarrow> int" where
  "hash_value H key msg = int_from_bytes (take 8 (H key msg))"

definition prng_seed :: "keyed_hash \<Rightarrow> bytes \<Rightarrow> bytes" where
  "prng_seed H key = H key ''PRNG|v1''"

definition keyed_bit :: "keyed_hash \<Rightarrow> bytes \<Rightarrow> string \<Rightarrow> int" where
  "keyed_bit H key label = hash_value H key label mod 2"

text \<open>The separator of the \<open>keyed_index\<close> label is an em dash, three bytes in UTF-8.\<close>

definition em_dash :: string where
  "em_dash = [char_of (0xE2 :: nat), char_of (0x80 :: nat), char_of (0x94 :: nat)]"

definition keyed_index_msg :: "string \<Rightarrow> nat \<Rightarrow> nat \<Rightarrow> bytes" where
  "keyed_index_msg bi_lab p c = bi_lab @ em_dash @ str_nat p @ em_dash @ str_nat c"

partial_function (option) keyed_index_loop ::
  "keyed_hash \<Rightarrow> nat \<Rightarrow> int \<Rightarrow> bytes \<Rightarrow> string \<Rightarrow> int \<Rightarrow> nat \<Rightarrow> nat option" where
  "keyed_index_loop H p eta key bi_lab limit c =
     (let r = hash_value H key (keyed_index_msg bi_lab p c)
      in if r < limit then Some (nat (r mod eta))
         else keyed_index_loop H p eta key bi_lab limit (c + 1))"

declare keyed_index_loop.simps [code]

definition keyed_index :: "keyed_hash \<Rightarrow> nat \<Rightarrow> int \<Rightarrow> bytes \<Rightarrow> (error + nat) option" where
  "keyed_index H p eta key =
     (if eta \<le> 0 then Some (Inl (ValueError ''eta must be > 0''))
      else
        let limit = 2 ^ 64 - (2 ^ 64 mod eta)
        in map_option Inr (keyed_index_loop H p eta key ''KInd|v1'' limit 0))"

definition perm_label :: "string \<Rightarrow> nat \<Rightarrow> nat \<Rightarrow> bytes" where
  "perm_label ctx i c = ''perm|'' @ ctx @ ''|i='' @ str_nat i @ ''|c='' @ str_nat c"

text \<open>
  The inner \<^verbatim>\<open>while True\<close> of \<open>keyed_permutation\<close>: it returns the accepted value \<open>r\<close>
  and the counter as the loop leaves it.
\<close>

partial_function (option) perm_draw ::
  "keyed_hash \<Rightarrow> bytes \<Rightarrow> string \<Rightarrow> nat \<Rightarrow> int \<Rightarrow> nat \<Rightarrow> (int \<times> nat) option" where
  "perm_draw H seed ctx i L c =
     (let r = hash_value H seed (perm_label ctx i c)
      in if r < L then Some (r, c + 1)
         else perm_draw H seed ctx i L (c + 1))"

declare perm_draw.simps [code]

text \<open>The \<^verbatim>\<open>for i in range(n - 1)\<close> loop; the counter \<open>c\<close> runs through all of it.\<close>

fun perm_loop ::
  "keyed_hash \<Rightarrow> bytes \<Rightarrow> string \<Rightarrow> nat list \<Rightarrow> nat list \<Rightarrow> nat \<Rightarrow> (nat list \<times> nat) option" where
  "perm_loop H seed ctx [] P c = Some (P, c)"
| "perm_loop H seed ctx (i # rest) P c =
     (let m = int i + 1;
          L = 2 ^ 64 - (2 ^ 64 mod m)
      in case perm_draw H seed ctx i L c of
           None \<Rightarrow> None
         | Some (r, c') \<Rightarrow>
             let j = nat (r mod m)
             in perm_loop H seed ctx rest (P[i := P ! j, j := P ! i]) c')"

definition keyed_permutation :: "keyed_hash \<Rightarrow> bytes \<Rightarrow> int \<Rightarrow> (error + nat list) option" where
  "keyed_permutation H seed n =
     (if n < 0 then Some (Inl (ValueError ''n must be >= 0''))
      else map_option (\<lambda>(P, c). Inr P)
             (perm_loop H seed ''KPerm|v1'' [0..<nat (n - 1)] [0..<nat n] 0))"

subsection \<open>The watermark graph (\<^verbatim>\<open>graph.py\<close>)\<close>

text \<open>
  \<open>Node\<close> objects live in a store that maps the identity of an object to its two
  fields; a field holds \<open>None\<close> or the identity of a node. The store is total, as a Python
  reference always leads to an object. The test \<^verbatim>\<open>a is b\<close> is equality of identities.
\<close>

type_synonym addr = nat

record node =
  node_next :: "addr option"
  node_digit :: "addr option"

type_synonym heap = "addr \<Rightarrow> node"

definition new_node :: node where
  "new_node = \<lparr>node_next = None, node_digit = None\<rparr>"

definition empty_msg :: string where
  "empty_msg = char_of (0xCE :: nat) # char_of (0xB6 :: nat) # ''6 must be non-empty''"

text \<open>
  \<open>encode_watermark\<close> allocates \<open>mu\<close> nodes, here at the identities \<open>0, ..., mu - 1\<close>, and
  returns the store together with the head \<open>nodes[0]\<close>.
\<close>

definition encode_watermark :: "int list \<Rightarrow> error + heap \<times> addr" where
  "encode_watermark zeta6 =
     (let mu = length zeta6 in
      if mu \<le> 0 then Inl (ValueError empty_msg)
      else
        let nodes = [0..<mu];
            h0 = (\<lambda>a. new_node);
            h1 = fold (\<lambda>r h. h(nodes ! r := (h (nodes ! r))\<lparr>node_next := Some (nodes ! ((r + 1) mod mu))\<rparr>))
                   [0..<mu] h0;
            h2 = fold (\<lambda>r h.
                         let d = zeta6 ! r in
                         if d = 0 then h(nodes ! r := (h (nodes ! r))\<lparr>node_digit := None\<rparr>)
                         else
                           let t = nat ((int r + d - 1) mod int mu)
                           in h(nodes ! r := (h (nodes ! r))\<lparr>node_digit := Some (nodes ! t)\<rparr>))
                   [0..<mu] h1
        in Inr (h2, nodes ! 0))"

definition broken_ring :: error where
  "broken_ring = ValueError ''invalid structure (broken ring)''"

definition unreachable_digit :: error where
  "unreachable_digit = ValueError ''invalid structure (unreachable digit)''"

text \<open>The \<^verbatim>\<open>for _ in range(1, mu)\<close> loop that collects the ring.\<close>

fun ring_loop :: "heap \<Rightarrow> nat \<Rightarrow> addr \<Rightarrow> addr list \<Rightarrow> error + addr list" where
  "ring_loop h 0 cur nodes = Inr nodes"
| "ring_loop h (Suc k) cur nodes =
     (case node_next (h cur) of
        None \<Rightarrow> Inl broken_ring
      | Some q \<Rightarrow> ring_loop h k q (nodes @ [q]))"

text \<open>
  The \<^verbatim>\<open>while probe is not nr.digit\<close> loop, with the digit target \<open>t\<close>; it returns the
  step count \<open>s\<close>.
\<close>

function probe_loop :: "heap \<Rightarrow> addr \<Rightarrow> nat \<Rightarrow> addr \<Rightarrow> nat \<Rightarrow> error + nat" where
  "probe_loop h t mu probe s =
     (if probe = t then Inr s
      else case node_next (h probe) of
        None \<Rightarrow> Inl broken_ring
      | Some q \<Rightarrow>
          if s + 1 > mu then Inl unreachable_digit
          else probe_loop h t mu q (s + 1))"
  by pat_completeness auto
termination
  by (relation "measure (\<lambda>(h, t, mu, probe, s). Suc mu - s)") auto

declare probe_loop.simps [simp del]

text \<open>The \<^verbatim>\<open>for r in range(mu)\<close> loop that reads one digit per node.\<close>

fun digit_loop :: "heap \<Rightarrow> nat \<Rightarrow> addr list \<Rightarrow> nat list \<Rightarrow> int list \<Rightarrow> error + int list" where
  "digit_loop h mu nodes [] zeta6 = Inr zeta6"
| "digit_loop h mu nodes (r # rs) zeta6 =
     (let nr = nodes ! r in
      case node_digit (h nr) of
        None \<Rightarrow> digit_loop h mu nodes rs (zeta6[r := 0])
      | Some t \<Rightarrow>
          (case probe_loop h t mu nr 0 of
             Inl e \<Rightarrow> Inl e
           | Inr s \<Rightarrow> digit_loop h mu nodes rs (zeta6[r := int s + 1])))"

definition decode_watermark :: "heap \<Rightarrow> addr \<Rightarrow> int \<Rightarrow> error + int list" where
  "decode_watermark h head mu =
     (if mu \<le> 0 then Inl (ValueError ''mu must be > 0'')
      else case ring_loop h (nat mu - 1) head [head] of
        Inl e \<Rightarrow> Inl e
      | Inr nodes \<Rightarrow> digit_loop h (nat mu) nodes [0..<nat mu] (replicate (nat mu) 0))"

subsection \<open>The controller (\<^verbatim>\<open>controller.py\<close>)\<close>

record VerificationResult =
  is_authentic :: bool
  recovered_zeta :: "int option"
  recovered_zeta6 :: "int list option"
  error :: "string option"

text \<open>The body of the \<^verbatim>\<open>try\<close> block: an exception of either call leaves it.\<close>

definition decode_and_convert :: "heap \<Rightarrow> addr \<Rightarrow> nat \<Rightarrow> error + int list \<times> int" where
  "decode_and_convert h graph_head mu =
     (case decode_watermark h graph_head (int mu) of
        Inl e \<Rightarrow> Inl e
      | Inr recovered6 \<Rightarrow>
          (case digits_to_int recovered6 6 of
             Inl e \<Rightarrow> Inl e
           | Inr recovered \<Rightarrow> Inr (recovered6, recovered)))"

definition controller_verify :: "heap \<Rightarrow> addr \<Rightarrow> int \<Rightarrow> error + VerificationResult" where
  "controller_verify h graph_head expected_zeta =
     (if expected_zeta < 0 then Inl (ValueError ''expected_zeta must be non-negative'')
      else case int_to_digits expected_zeta 6 of
        Inl e \<Rightarrow> Inl e
      | Inr expected_zeta6 \<Rightarrow>
          let mu = length expected_zeta6 in
          (case decode_and_convert h graph_head mu of
             Inl e \<Rightarrow>
               Inr \<lparr>is_authentic = False, recovered_zeta = None, recovered_zeta6 = None,
                    error = Some (error_text e)\<rparr>
           | Inr (recovered6, recovered) \<Rightarrow>
               Inr \<lparr>is_authentic = (recovered = expected_zeta), recovered_zeta = Some recovered,
                    recovered_zeta6 = Some recovered6, error = None\<rparr>))"

subsection \<open>The encoder (\<^verbatim>\<open>encoder.py\<close>)\<close>

text \<open>
  Reading or writing a list outside its range raises \<^verbatim>\<open>IndexError\<close>.
\<close>

definition index_error :: error where
  "index_error = IndexError ''list index out of range''"

definition assign_error :: error where
  "assign_error = IndexError ''list assignment index out of range''"

text \<open>
  Python's list indexing, for an index that may be negative: index \<open>i\<close> of a list of
  length \<open>n\<close> names position \<open>i\<close> when \<open>0 \<le> i < n\<close>, it names position \<open>n + i\<close> (counted
  from the end) when \<open>- n \<le> i < 0\<close>, and any other index is out of range.
\<close>

definition list_position :: "'a list \<Rightarrow> int \<Rightarrow> nat option" where
  "list_position xs i =
     (let n = int (length xs)
      in if 0 \<le> i \<and> i < n then Some (nat i)
         else if - n \<le> i \<and> i < 0 then Some (nat (n + i))
         else None)"

text \<open>
  The entries of a permutation made by \<open>keyed_permutation\<close> are natural numbers, and
  the loops that only ever run over such a permutation (in \<open>prepare_parameters\<close> and
  \<open>code_builder\<close>) index with them. The permutation that a caller passes to
  \<open>hints_detection\<close> or to \<open>restore_params_from_pairs\<close> is any list of ints, as are the
  \<^verbatim>\<open>permutation\<close> fields of the two result classes; these functions index with
  \<open>list_position\<close>.
\<close>

record PreparedInput =
  watermarked_params :: "int list"
  prep_permutation :: "int list"
  prep_eta :: int

record AuthenticationBuild =
  graph_store :: heap
  graph_head :: addr
  build_permutation :: "int list"
  build_eta :: int

text \<open>Running a call that may raise or loop for each element of a list, in order.\<close>

fun map_res :: "('a \<Rightarrow> (error + 'b) option) \<Rightarrow> 'a list \<Rightarrow> (error + 'b list) option" where
  "map_res f [] = Some (Inr [])"
| "map_res f (x # xs) =
     (case f x of
        None \<Rightarrow> None
      | Some (Inl e) \<Rightarrow> Some (Inl e)
      | Some (Inr y) \<Rightarrow>
          (case map_res f xs of
             None \<Rightarrow> None
           | Some (Inl e) \<Rightarrow> Some (Inl e)
           | Some (Inr ys) \<Rightarrow> Some (Inr (y # ys))))"

definition need_pair_msg :: string where
  "need_pair_msg = ''Need at least 2 parameters (one pair).''"

definition not_enough_msg :: "int \<Rightarrow> int \<Rightarrow> string" where
  "not_enough_msg eta n_pairs =
     ''Not enough parameter pairs to support eta='' @ str_int eta @ '': need at least ''
     @ str_int eta @ '' pairs, got '' @ str_int n_pairs @ ''. ''
     @ ''Increase the number of input integers or reduce eta.''"

definition coverage_msg :: "nat \<Rightarrow> int \<Rightarrow> string" where
  "coverage_msg covered eta =
     ''Insufficient KEYED_INDEX coverage: only '' @ str_nat covered @ ''/'' @ str_int eta
     @ '' bit positions receive votes. ''
     @ ''Increase the number of input integers (more pairs) or reduce eta.''"

text \<open>\<^verbatim>\<open>_compute_permutation\<close> (a name cannot start with an underscore here).\<close>

definition compute_permutation ::
  "keyed_hash \<Rightarrow> int \<Rightarrow> bytes \<Rightarrow> int \<Rightarrow> (error + nat list) option" where
  "compute_permutation H params_len key eta =
     (if params_len < 2 then Some (Inl (ValueError need_pair_msg))
      else
        let seed = prng_seed H key;
            n_pairs = params_len div 2
        in if n_pairs < eta then Some (Inl (ValueError (not_enough_msg eta n_pairs)))
           else case keyed_permutation H seed n_pairs of
             None \<Rightarrow> None
           | Some (Inl e) \<Rightarrow> Some (Inl e)
           | Some (Inr P) \<Rightarrow>
               (case map_res (\<lambda>p. keyed_index H p eta key) P of
                  None \<Rightarrow> None
                | Some (Inl e) \<Rightarrow> Some (Inl e)
                | Some (Inr js) \<Rightarrow>
                    let covered = set js
                    in if int (card covered) < eta
                       then Some (Inl (ValueError (coverage_msg (card covered) eta)))
                       else Some (Inr P)))"

fun hints_loop :: "int list \<Rightarrow> int list \<Rightarrow> int list \<Rightarrow> error + int list" where
  "hints_loop I [] gamma = Inr gamma"
| "hints_loop I (p # ps) gamma =
     (case list_position I (2 * p) of
        None \<Rightarrow> Inl index_error
      | Some kx \<Rightarrow>
          (case list_position I (2 * p + 1) of
             None \<Rightarrow> Inl index_error
           | Some ky \<Rightarrow>
               let x = I ! kx;
                   y = I ! ky
               in (case list_position gamma p of
                     None \<Rightarrow> Inl assign_error
                   | Some kg \<Rightarrow> hints_loop I ps (gamma[kg := (x - y) mod 2]))))"

definition hints_detection :: "int list \<Rightarrow> int list \<Rightarrow> error + int list" where
  "hints_detection I P =
     (let n_pairs = length I div 2;
          gamma = replicate n_pairs 0
      in hints_loop I P gamma)"

text \<open>The voting loop of \<open>code_builder\<close>, on the two tallies.\<close>

fun votes_loop ::
  "keyed_hash \<Rightarrow> int list \<Rightarrow> int \<Rightarrow> bytes \<Rightarrow> nat list \<Rightarrow> nat list \<Rightarrow> nat list
     \<Rightarrow> (error + nat list \<times> nat list) option" where
  "votes_loop H gamma eta key [] ones zeros = Some (Inr (ones, zeros))"
| "votes_loop H gamma eta key (p # ps) ones zeros =
     (case keyed_index H p eta key of
        None \<Rightarrow> None
      | Some (Inl e) \<Rightarrow> Some (Inl e)
      | Some (Inr j) \<Rightarrow>
          if \<not> p < length gamma then Some (Inl index_error)
          else if gamma ! p = 1 then
            (if \<not> j < length ones then Some (Inl index_error)
             else votes_loop H gamma eta key ps (ones[j := ones ! j + 1]) zeros)
          else
            (if \<not> j < length zeros then Some (Inl index_error)
             else votes_loop H gamma eta key ps ones (zeros[j := zeros ! j + 1])))"

definition chaos_msg :: "string \<Rightarrow> nat \<Rightarrow> nat \<Rightarrow> nat \<Rightarrow> string" where
  "chaos_msg bi_lab j o_votes z_votes =
     bi_lab @ ''|chaos|j='' @ str_nat j @ ''|o='' @ str_nat o_votes @ ''|z='' @ str_nat z_votes"

text \<open>The body of the \<^verbatim>\<open>for j in range(eta)\<close> loop: the value written to \<open>zeta2[j]\<close>.\<close>

definition decide_bit :: "keyed_hash \<Rightarrow> bytes \<Rightarrow> string \<Rightarrow> nat \<Rightarrow> nat \<Rightarrow> nat \<Rightarrow> int" where
  "decide_bit H key bi_lab j o_votes z_votes =
     (if o_votes > 0 \<and> z_votes = 0 then 1
      else if z_votes > 0 \<and> o_votes = 0 then 0
      else keyed_bit H key (chaos_msg bi_lab j o_votes z_votes))"

definition code_builder ::
  "keyed_hash \<Rightarrow> int list \<Rightarrow> int \<Rightarrow> bytes \<Rightarrow> nat list \<Rightarrow> (error + int list) option" where
  "code_builder H gamma eta key P =
     (let zeta2 = replicate (nat eta) 0;
          ones = replicate (nat eta) 0;
          zeros = replicate (nat eta) 0;
          bi_lab = ''KBit|v1''
      in case votes_loop H gamma eta key P ones zeros of
           None \<Rightarrow> None
         | Some (Inl e) \<Rightarrow> Some (Inl e)
         | Some (Inr (ones', zeros')) \<Rightarrow>
             Some (Inr (fold (\<lambda>j z2. z2[j := decide_bit H key bi_lab j (ones' ! j) (zeros' ! j)])
                          [0..<nat eta] zeta2)))"

text \<open>The scatter loop of \<open>prepare_parameters\<close>.\<close>

fun scatter_loop ::
  "keyed_hash \<Rightarrow> int list \<Rightarrow> int \<Rightarrow> bytes \<Rightarrow> nat list \<Rightarrow> int list \<Rightarrow> (error + int list) option" where
  "scatter_loop H zeta2 eta key [] gamma = Some (Inr gamma)"
| "scatter_loop H zeta2 eta key (p # ps) gamma =
     (case keyed_index H p eta key of
        None \<Rightarrow> None
      | Some (Inl e) \<Rightarrow> Some (Inl e)
      | Some (Inr j) \<Rightarrow>
          if \<not> j < length zeta2 then Some (Inl index_error)
          else if \<not> p < length gamma then Some (Inl assign_error)
          else scatter_loop H zeta2 eta key ps (gamma[p := zeta2 ! j]))"

text \<open>The embedding loop of \<open>prepare_parameters\<close>.\<close>

fun embed_loop :: "int list \<Rightarrow> nat list \<Rightarrow> int list \<Rightarrow> error + int list" where
  "embed_loop gamma [] I = Inr I"
| "embed_loop gamma (p # ps) I =
     (if \<not> 2 * p < length I then Inl index_error
      else if \<not> 2 * p + 1 < length I then Inl index_error
      else
        let x = I ! (2 * p);
            y = I ! (2 * p + 1)
        in if \<not> p < length gamma then Inl index_error
           else case embed_bit x y (gamma ! p) of
             Inl e \<Rightarrow> Inl e
           | Inr emb \<Rightarrow>
               embed_loop gamma ps (I[2 * p := x_embedded emb, 2 * p + 1 := y_embedded emb]))"

definition prepare_parameters ::
  "keyed_hash \<Rightarrow> int list \<Rightarrow> bytes \<Rightarrow> int \<Rightarrow> int \<Rightarrow> (error + PreparedInput) option" where
  "prepare_parameters H params key zeta eta =
     (if zeta < 0 then Some (Inl (ValueError ''zeta must be non-negative''))
      else case compute_permutation H (int (length params)) key eta of
        None \<Rightarrow> None
      | Some (Inl e) \<Rightarrow> Some (Inl e)
      | Some (Inr P) \<Rightarrow>
          (case bits_from_int zeta eta of
             Inl e \<Rightarrow> Some (Inl e)
           | Inr zeta2 \<Rightarrow>
               let n_pairs = length params div 2;
                   gamma0 = replicate n_pairs 0
               in case scatter_loop H zeta2 eta key P gamma0 of
                    None \<Rightarrow> None
                  | Some (Inl e) \<Rightarrow> Some (Inl e)
                  | Some (Inr gamma) \<Rightarrow>
                      (case embed_loop gamma P params of
                         Inl e \<Rightarrow> Some (Inl e)
                       | Inr I \<Rightarrow>
                           Some (Inr \<lparr>watermarked_params = I, prep_permutation = map int P,
                                      prep_eta = eta\<rparr>))))"

definition build_watermark_graph ::
  "keyed_hash \<Rightarrow> int list \<Rightarrow> bytes \<Rightarrow> int \<Rightarrow> (error + AuthenticationBuild) option" where
  "build_watermark_graph H received_params key eta =
     (case compute_permutation H (int (length received_params)) key eta of
        None \<Rightarrow> None
      | Some (Inl e) \<Rightarrow> Some (Inl e)
      | Some (Inr P) \<Rightarrow>
          (case hints_detection received_params (map int P) of
             Inl e \<Rightarrow> Some (Inl e)
           | Inr gamma_detected \<Rightarrow>
               (case code_builder H gamma_detected eta key P of
                  None \<Rightarrow> None
                | Some (Inl e) \<Rightarrow> Some (Inl e)
                | Some (Inr zeta2_hat) \<Rightarrow>
                    (case base_convert_digits zeta2_hat 2 6 of
                       Inl e \<Rightarrow> Some (Inl e)
                     | Inr zeta6_hat \<Rightarrow>
                         (case encode_watermark zeta6_hat of
                            Inl e \<Rightarrow> Some (Inl e)
                          | Inr (h, head) \<Rightarrow>
                              Some (Inr \<lparr>graph_store = h, graph_head = head,
                                         build_permutation = map int P, build_eta = eta\<rparr>))))))"

text \<open>
  The loop of \<open>restore_params_from_pairs\<close>. Its two assignments use the indices of its
  two reads, on a list of the same length, so they name the same two positions and
  cannot raise once the reads have succeeded.
\<close>

fun restore_loop :: "int list \<Rightarrow> int list \<Rightarrow> error + int list" where
  "restore_loop [] I = Inr I"
| "restore_loop (p # ps) I =
     (case list_position I (2 * p) of
        None \<Rightarrow> Inl index_error
      | Some kx \<Rightarrow>
          (case list_position I (2 * p + 1) of
             None \<Rightarrow> Inl index_error
           | Some ky \<Rightarrow>
               let x_p = I ! kx;
                   y_p = I ! ky;
                   (b, (x, y)) = extract_bit_and_restore x_p y_p
               in restore_loop ps (I[kx := x, ky := y])))"

definition restore_params_from_pairs :: "int list \<Rightarrow> int list \<Rightarrow> error + int list" where
  "restore_params_from_pairs received P = restore_loop P received"

subsection \<open>The client-side helper (\<^verbatim>\<open>wrap.py\<close>)\<close>


subsection \<open>A stand-in keyed hash for concrete instances\<close>

text \<open>
  The theorems below hold for every keyed hash. To run them on a concrete input one
  hash has to be fixed; \<open>sum_hash\<close> is a small one (its digest ends in the byte sum of
  the message), used only for that.
\<close>

definition sum_hash :: keyed_hash where
  "sum_hash key msg =
     replicate 7 (char_of (0 :: int)) @ [char_of (sum_list (map of_char msg) :: int)]"

subsection \<open>The store that encoding builds\<close>

text \<open>
  The store in which \<open>encode_watermark\<close> leaves its nodes, in closed form: node \<open>a\<close>
  points with \<open>next\<close> to node \<open>(a + 1) mod mu\<close> and with \<open>digit\<close> to nothing or to node
  \<open>(a + d - 1) mod mu\<close> (lemma \<open>encode_watermark_heap\<close>).
\<close>

definition ring_heap :: "int list \<Rightarrow> heap" where
  "ring_heap ds = (\<lambda>a. if a < length ds
      then \<lparr>node_next = Some ((a + 1) mod length ds),
            node_digit = (if ds ! a = 0 then None
                          else Some (nat ((int a + ds ! a - 1) mod int (length ds))))\<rparr>
      else new_node)"

subsection \<open>Vote counts\<close>

text \<open>
  What \<open>code_builder\<close> tallies, stated apart from its loop: with \<open>idx p\<close> the bit
  position that \<open>keyed_index\<close> gives to pair \<open>p\<close>, the votes of position \<open>j\<close> come from
  the entries \<open>p\<close> of \<open>P\<close> with \<open>idx p = j\<close>; such a vote is a 1-vote when
  \<open>gamma[p] == 1\<close> and a 0-vote otherwise, as the \<^verbatim>\<open>if\<close>/\<^verbatim>\<open>else\<close> of the loop has it.
\<close>

definition one_votes :: "(nat \<Rightarrow> nat) \<Rightarrow> int list \<Rightarrow> nat list \<Rightarrow> nat \<Rightarrow> nat" where
  "one_votes idx gamma P j = length (filter (\<lambda>p. idx p = j \<and> gamma ! p = 1) P)"

definition zero_votes :: "(nat \<Rightarrow> nat) \<Rightarrow> int list \<Rightarrow> nat list \<Rightarrow> nat \<Rightarrow> nat" where
  "zero_votes idx gamma P j = length (filter (\<lambda>p. idx p = j \<and> gamma ! p \<noteq> 1) P)"

section \<open>Properties\<close>

subsection \<open>Difference expansion\<close>

lemma embed_bit_values:
  assumes "b = 0 \<or> b = 1"
  shows "embed_bit x y b =
           Inr \<lparr>x_embedded = (x + y) div 2 + (x - y) + b, y_embedded = (x + y) div 2 - (x - y)\<rparr>"
proof -
  have c: "- ((- (2 * (x - y) + b)) div 2) = (x - y) + b"
    using assms by auto
  have f: "(2 * (x - y) + b) div 2 = x - y"
    using assms by auto
  show ?thesis
    using assms c f by (auto simp: embed_bit_def floor_div2_def ceil_div2_def Let_def)
qed

lemma extract_after_embed:
  assumes "b = 0 \<or> b = 1"
  shows "extract_bit_and_restore ((x + y) div 2 + (x - y) + b) ((x + y) div 2 - (x - y))
           = (b, (x, y))"
proof -
  define a where "a = (x + y) div 2"
  define d where "d = x - y"
  have dp: "(a + d + b) - (a - d) = 2 * d + b" by simp
  have sm: "(a + d + b) + (a - d) = 2 * a + b" by simp
  have b: "(2 * d + b) mod 2 = b" using assms by auto
  have dd: "(2 * d + b) div 2 = d" using assms by auto
  have aa: "(2 * a + b) div 2 = a" using assms by auto
  have xx: "a + - ((- d) div 2) = x" unfolding a_def d_def by presburger
  have yy: "a - d div 2 = y" unfolding a_def d_def by presburger
  have "extract_bit_and_restore (a + d + b) (a - d) = (b, (x, y))"
    unfolding extract_bit_and_restore_def Let_def floor_div2_def ceil_div2_def dp sm b dd aa
    using xx yy by simp
  then show ?thesis by (simp add: a_def d_def)
qed

text \<open>
  C2. For all integers \<open>x\<close>, \<open>y\<close> and every bit in \<open>{0, 1}\<close>, extracting from the pair
  that \<open>embed_bit\<close> produced gives back exactly the bit and the original pair.
\<close>

theorem embed_extract_roundtrip:
  assumes "b = 0 \<or> b = 1"
  shows "\<exists>e. embed_bit x y b = Inr e
           \<and> extract_bit_and_restore (x_embedded e) (y_embedded e) = (b, (x, y))"
  using assms embed_bit_values [OF assms, of x y] extract_after_embed [OF assms, of x y]
  by simp

theorem embed_extract_roundtrip_witness:
  "((1::int) = 0 \<or> (1::int) = 1)
   \<and> (\<exists>e. embed_bit (-7) 12 1 = Inr e
           \<and> extract_bit_and_restore (x_embedded e) (y_embedded e) = (1, (-7, 12)))"
  using embed_extract_roundtrip [of 1 "-7" 12] by simp

text \<open>
  C10. \<open>embed_bit\<close> raises exactly when the bit is neither 0 nor 1, and
  \<open>extract_bit_and_restore\<close>, which has no raising branch, returns for every pair of
  integers a bit in \<open>{0, 1}\<close> together with a pair.
\<close>

theorem embed_bit_raises_iff:
  "((\<exists>e. embed_bit x y b = Inl e) \<longleftrightarrow> (b \<noteq> 0 \<and> b \<noteq> 1))
   \<and> (\<exists>c r. extract_bit_and_restore x' y' = (c, r) \<and> (c = 0 \<or> c = 1))"
  by (auto simp: embed_bit_def extract_bit_and_restore_def Let_def)

subsection \<open>The watermark graph and the controller\<close>

text \<open>
  C3. Decoding the graph that \<open>encode_watermark\<close> builds does not always give back the
  digit array: the one-digit array \<open>[2]\<close> (a digit in \<open>[0, 5]\<close>, length 1) comes back as
  \<open>[1]\<close>, because the digit target \<open>(0 + 2 - 1) mod 1\<close> is node 0 itself and the decoder
  counts no step.
\<close>

theorem decode_encode_single_digit:
  "(case encode_watermark [2] of
      Inl e \<Rightarrow> False
    | Inr (h, head) \<Rightarrow> decode_watermark h head (int (length [2::int])) = Inr [1])"
  by code_simp

lemma int_to_digits_returns:
  "0 \<le> z \<Longrightarrow> \<exists>ds. int_to_digits z 6 = Inr ds"
  by (simp add: int_to_digits_def)

text \<open>
  C4. \<open>controller_verify\<close> raises exactly when the expected code is negative. For a
  non-negative expected code and any store and head it returns a result: a failure of
  \<open>decode_watermark\<close> or of \<open>digits_to_int\<close> becomes the non-authentic result that carries
  the text of the error, and otherwise the result compares the recovered code with the
  expected one.
\<close>

theorem controller_verify_total:
  "((\<exists>e. controller_verify h g z = Inl e) \<longleftrightarrow> z < 0)
   \<and> (0 \<le> z \<longrightarrow>
        (\<exists>ds r. int_to_digits z 6 = Inr ds \<and> controller_verify h g z = Inr r
           \<and> (\<forall>e. decode_watermark h g (int (length ds)) = Inl e \<longrightarrow>
                  r = \<lparr>is_authentic = False, recovered_zeta = None, recovered_zeta6 = None,
                       error = Some (error_text e)\<rparr>)
           \<and> (\<forall>z6 e. decode_watermark h g (int (length ds)) = Inr z6
                       \<and> digits_to_int z6 6 = Inl e \<longrightarrow>
                  r = \<lparr>is_authentic = False, recovered_zeta = None, recovered_zeta6 = None,
                       error = Some (error_text e)\<rparr>)
           \<and> (\<forall>z6 v. decode_watermark h g (int (length ds)) = Inr z6
                       \<and> digits_to_int z6 6 = Inr v \<longrightarrow>
                  r = \<lparr>is_authentic = (v = z), recovered_zeta = Some v,
                       recovered_zeta6 = Some z6, error = None\<rparr>)))"
proof (cases "z < 0")
  case True
  then show ?thesis by (simp add: controller_verify_def)
next
  case False
  then obtain ds where ds: "int_to_digits z 6 = Inr ds"
    using int_to_digits_returns [of z] by auto
  show ?thesis
    using False ds
    by (auto simp: controller_verify_def decode_and_convert_def Let_def split: sum.splits)
qed

theorem controller_verify_total_witness:
  "controller_verify (\<lambda>a. new_node) 0 7 =
     Inr \<lparr>is_authentic = False, recovered_zeta = None, recovered_zeta6 = None,
          error = Some ''invalid structure (broken ring)''\<rparr>"
proof -
  have d: "int_to_digits 7 6 = Inr [1, 1]" by code_simp
  have e: "decode_watermark (\<lambda>a. new_node) 0 (int (length [1::int, 1])) = Inl broken_ring"
    by code_simp
  have t: "error_text broken_ring = ''invalid structure (broken ring)''"
    by (simp add: broken_ring_def)
  from controller_verify_total [of "\<lambda>a. new_node" 0 7] d e t show ?thesis
    by auto
qed

subsection \<open>The keyed permutation\<close>

lemma sum_hash_small: "hash_value sum_hash key msg < 256"
proof -
  have r: "replicate 7 x = [x, x, x, x, x, x, x]" for x :: char
    by (simp add: eval_nat_numeral)
  show ?thesis
    by (simp add: hash_value_def sum_hash_def int_from_bytes_def r)
qed

lemma perm_draw_accepts:
  "hash_value H seed (perm_label ctx i (c + k)) < L \<Longrightarrow>
   \<exists>r c'. perm_draw H seed ctx i L c = Some (r, c')"
proof (induction k arbitrary: c)
  case 0
  then show ?case by (subst perm_draw.simps) (simp add: Let_def)
next
  case (Suc k)
  from Suc.prems have "hash_value H seed (perm_label ctx i (Suc c + k)) < L" by simp
  from Suc.IH [OF this] obtain r c' where "perm_draw H seed ctx i L (c + 1) = Some (r, c')"
    by auto
  then show ?case by (subst perm_draw.simps) (simp add: Let_def)
qed

lemma perm_loop_invariant:
  "\<forall>i \<in> set idxs. i < length P \<Longrightarrow> perm_loop H seed ctx idxs P c = Some (P', c') \<Longrightarrow>
   length P' = length P \<and> set P' = set P \<and> (distinct P' \<longleftrightarrow> distinct P)"
proof (induction idxs arbitrary: P c)
  case Nil
  then show ?case by simp
next
  case (Cons i rest)
  from Cons.prems(2) obtain r c1 where
    d: "perm_draw H seed ctx i (2 ^ 64 - (2 ^ 64 mod (int i + 1))) c = Some (r, c1)" and
    l: "perm_loop H seed ctx rest (P[i := P ! nat (r mod (int i + 1)), nat (r mod (int i + 1)) := P ! i]) c1
          = Some (P', c')"
    by (auto simp: Let_def split: option.splits)
  let ?j = "nat (r mod (int i + 1))"
  let ?Q = "P[i := P ! ?j, ?j := P ! i]"
  have i: "i < length P" using Cons.prems(1) by simp
  have "(0::int) < int i + 1" by simp
  then have "r mod (int i + 1) < int i + 1" by (rule pos_mod_bound)
  then have j: "?j < length P" using i by linarith
  have "\<forall>k \<in> set rest. k < length ?Q" using Cons.prems(1) by simp
  from Cons.IH [OF this l]
  have "length P' = length ?Q \<and> set P' = set ?Q \<and> (distinct P' \<longleftrightarrow> distinct ?Q)" .
  then show ?case using i j by (simp add: set_swap distinct_swap)
qed

lemma perm_loop_returns:
  "\<forall>i \<in> set idxs. \<forall>c. \<exists>k. hash_value H seed (perm_label ctx i (c + k))
       < 2 ^ 64 - (2 ^ 64 mod (int i + 1)) \<Longrightarrow>
   \<exists>P' c'. perm_loop H seed ctx idxs P c = Some (P', c')"
proof (induction idxs arbitrary: P c)
  case Nil
  then show ?case by simp
next
  case (Cons i rest)
  from Cons.prems have "\<forall>c. \<exists>k. hash_value H seed (perm_label ctx i (c + k))
       < 2 ^ 64 - (2 ^ 64 mod (int i + 1))"
    by simp
  then obtain k where
    "hash_value H seed (perm_label ctx i (c + k)) < 2 ^ 64 - (2 ^ 64 mod (int i + 1))"
    by blast
  from perm_draw_accepts [OF this] obtain r c1 where
    d: "perm_draw H seed ctx i (2 ^ 64 - (2 ^ 64 mod (int i + 1))) c = Some (r, c1)"
    by auto
  have "\<forall>i \<in> set rest. \<forall>c. \<exists>k. hash_value H seed (perm_label ctx i (c + k))
       < 2 ^ 64 - (2 ^ 64 mod (int i + 1))"
    using Cons.prems by simp
  from Cons.IH [OF this] show ?case using d by (simp add: Let_def)
qed

lemma keyed_permutation_is_permutation:
  assumes "keyed_permutation H seed n = Some (Inr P)"
  shows "length P = nat n \<and> distinct P \<and> set P = {0..<nat n}"
proof -
  from assms have n: "0 \<le> n"
    by (auto simp: keyed_permutation_def split: if_splits)
  from assms n obtain c where
    l: "perm_loop H seed ''KPerm|v1'' [0..<nat (n - 1)] [0..<nat n] 0 = Some (P, c)"
    by (auto simp: keyed_permutation_def)
  have "\<forall>i \<in> set [0..<nat (n - 1)]. i < length [0..<nat n]" by auto
  from perm_loop_invariant [OF this l] show ?thesis by simp
qed

text \<open>
  C8. Whenever \<open>keyed_permutation seed n\<close> returns a list, the list is a permutation of
  \<open>[0, n)\<close>: it has length \<open>n\<close>, no repetition, and holds exactly the indices below \<open>n\<close>.
  It does return, for \<open>n \<ge> 0\<close>, provided that the rejection sampling of the keyed hash
  ends: for every shuffle index \<open>i\<close> and every counter value there is a later counter
  value whose 64-bit hash value is below the threshold of \<open>i\<close>.
\<close>

theorem keyed_permutation_permutes:
  "(\<forall>P. keyed_permutation H seed n = Some (Inr P) \<longrightarrow>
       length P = nat n \<and> distinct P \<and> set P = {0..<nat n})
   \<and> (0 \<le> n \<and> (\<forall>i c. int i < n - 1 \<longrightarrow>
          (\<exists>k. hash_value H seed (perm_label ''KPerm|v1'' i (c + k))
                 < 2 ^ 64 - (2 ^ 64 mod (int i + 1)))) \<longrightarrow>
       (\<exists>P. keyed_permutation H seed n = Some (Inr P)))"
proof (rule conjI)
  show "\<forall>P. keyed_permutation H seed n = Some (Inr P) \<longrightarrow>
       length P = nat n \<and> distinct P \<and> set P = {0..<nat n}"
    using keyed_permutation_is_permutation by blast
next
  show "0 \<le> n \<and> (\<forall>i c. int i < n - 1 \<longrightarrow>
          (\<exists>k. hash_value H seed (perm_label ''KPerm|v1'' i (c + k))
                 < 2 ^ 64 - (2 ^ 64 mod (int i + 1)))) \<longrightarrow>
       (\<exists>P. keyed_permutation H seed n = Some (Inr P))"
  proof (rule impI)
    assume a: "0 \<le> n \<and> (\<forall>i c. int i < n - 1 \<longrightarrow>
          (\<exists>k. hash_value H seed (perm_label ''KPerm|v1'' i (c + k))
                 < 2 ^ 64 - (2 ^ 64 mod (int i + 1))))"
    then have "\<forall>i \<in> set [0..<nat (n - 1)]. \<forall>c. \<exists>k.
        hash_value H seed (perm_label ''KPerm|v1'' i (c + k)) < 2 ^ 64 - (2 ^ 64 mod (int i + 1))"
      by auto
    from perm_loop_returns [OF this]
    obtain P' c' where
      "perm_loop H seed ''KPerm|v1'' [0..<nat (n - 1)] [0..<nat n] 0 = Some (P', c')"
      by blast
    then show "\<exists>P. keyed_permutation H seed n = Some (Inr P)"
      using a by (simp add: keyed_permutation_def)
  qed
qed

theorem keyed_permutation_permutes_witness:
  "\<exists>P. keyed_permutation sum_hash ''s'' 5 = Some (Inr P)
       \<and> length P = 5 \<and> distinct P \<and> set P = {0..<5}"
proof -
  have acc: "\<forall>i c. int i < 5 - 1 \<longrightarrow>
      (\<exists>k. hash_value sum_hash ''s'' (perm_label ''KPerm|v1'' i (c + k))
             < 2 ^ 64 - (2 ^ 64 mod (int i + 1)))"
  proof (intro allI impI)
    fix i c :: nat
    assume i: "int i < 5 - 1"
    have "(0::int) < int i + 1" by simp
    then have "(2 ^ 64 :: int) mod (int i + 1) < int i + 1" by (rule pos_mod_bound)
    then have "(256::int) < 2 ^ 64 - (2 ^ 64 mod (int i + 1))" using i by simp
    then have "hash_value sum_hash ''s'' (perm_label ''KPerm|v1'' i (c + 0))
             < 2 ^ 64 - (2 ^ 64 mod (int i + 1))"
      using sum_hash_small [of "''s''" "perm_label ''KPerm|v1'' i (c + 0)"] by linarith
    then show "\<exists>k. hash_value sum_hash ''s'' (perm_label ''KPerm|v1'' i (c + k))
             < 2 ^ 64 - (2 ^ 64 mod (int i + 1))" ..
  qed
  from keyed_permutation_permutes [of sum_hash "''s''" 5] acc
  obtain P where "keyed_permutation sum_hash ''s'' 5 = Some (Inr P)" by auto
  with keyed_permutation_permutes [of sum_hash "''s''" 5] show ?thesis by auto
qed

subsection \<open>The keyed index and the permutation check\<close>

lemma keyed_index_loop_range:
  assumes "keyed_index_loop H p eta key lab limit c = Some j" and "0 < eta"
  shows "int j < eta"
proof -
  have "0 < eta \<longrightarrow> int j < eta"
  proof (rule keyed_index_loop.raw_induct
      [where P = "\<lambda>H p eta key lab limit c j. 0 < eta \<longrightarrow> int j < eta", OF _ assms(1)])
    fix loop :: "keyed_hash \<Rightarrow> nat \<Rightarrow> int \<Rightarrow> bytes \<Rightarrow> string \<Rightarrow> int \<Rightarrow> nat \<Rightarrow> nat option"
    fix H p eta key lab limit c j
    assume IH: "\<And>H p eta key lab limit c j.
        loop H p eta key lab limit c = Some j \<Longrightarrow> 0 < eta \<longrightarrow> int j < eta"
    assume step: "(let r = hash_value H key (keyed_index_msg lab p c)
        in if r < limit then Some (nat (r mod eta))
           else loop H p eta key lab limit (c + 1)) = Some j"
    show "0 < eta \<longrightarrow> int j < eta"
    proof
      assume e: "0 < eta"
      let ?r = "hash_value H key (keyed_index_msg lab p c)"
      show "int j < eta"
      proof (cases "?r < limit")
        case True
        with step have "j = nat (?r mod eta)" by (simp add: Let_def)
        moreover have "?r mod eta < eta" using e by (rule pos_mod_bound)
        moreover have "0 \<le> ?r mod eta" using e by (rule pos_mod_sign)
        ultimately show ?thesis by simp
      next
        case False
        with step have "loop H p eta key lab limit (c + 1) = Some j" by (simp add: Let_def)
        from IH [OF this] e show ?thesis by simp
      qed
    qed
  qed
  with assms(2) show ?thesis by simp
qed

lemma keyed_index_nonpositive:
  "eta \<le> 0 \<Longrightarrow> keyed_index H p eta key = Some (Inl (ValueError ''eta must be > 0''))"
  by (simp add: keyed_index_def)

lemma keyed_index_Inl:
  "keyed_index H p eta key = Some (Inl e) \<Longrightarrow> eta \<le> 0 \<and> e = ValueError ''eta must be > 0''"
  by (auto simp: keyed_index_def Let_def split: if_splits)

lemma keyed_index_Inr:
  assumes "keyed_index H p eta key = Some (Inr j)"
  shows "0 < eta \<and> int j < eta"
proof -
  from assms have e: "0 < eta"
    by (auto simp: keyed_index_def split: if_splits)
  with assms have
    "keyed_index_loop H p eta key ''KInd|v1'' (2 ^ 64 - (2 ^ 64 mod eta)) 0 = Some j"
    by (auto simp: keyed_index_def Let_def)
  from keyed_index_loop_range [OF this e] e show ?thesis by simp
qed

lemma map_res_Inr_iff:
  "map_res f xs = Some (Inr ys) \<longleftrightarrow> list_all2 (\<lambda>x y. f x = Some (Inr y)) xs ys"
proof (induction xs arbitrary: ys)
  case Nil
  then show ?case by auto
next
  case (Cons x xs)
  show ?case
    by (cases ys) (auto simp: Cons.IH [symmetric] split: option.splits sum.splits)
qed

lemma map_res_map:
  "\<forall>x \<in> set xs. f x = Some (Inr (g x)) \<Longrightarrow> map_res f xs = Some (Inr (map g xs))"
  by (simp add: map_res_Inr_iff list_all2_conv_all_nth)

lemma map_res_Inl_first:
  "xs \<noteq> [] \<Longrightarrow> \<forall>x \<in> set xs. f x = Some (Inl e) \<Longrightarrow> map_res f xs = Some (Inl e)"
  by (cases xs) auto

lemma map_res_Inl_D:
  "map_res f xs = Some (Inl e) \<Longrightarrow> \<exists>x \<in> set xs. f x = Some (Inl e)"
  by (induction xs) (auto split: option.splits sum.splits)

lemma keyed_permutation_no_error:
  "0 \<le> n \<Longrightarrow> keyed_permutation H seed n \<noteq> Some (Inl e)"
  by (auto simp: keyed_permutation_def)

lemma compute_permutation_short:
  "params_len < 2 \<Longrightarrow>
   compute_permutation H params_len key eta = Some (Inl (ValueError need_pair_msg))"
  by (simp add: compute_permutation_def)

lemma compute_permutation_few_pairs:
  "2 \<le> params_len \<Longrightarrow> params_len div 2 < eta \<Longrightarrow>
   compute_permutation H params_len key eta
     = Some (Inl (ValueError (not_enough_msg eta (params_len div 2))))"
  by (simp add: compute_permutation_def Let_def)

lemma compute_permutation_bad_eta:
  assumes "2 \<le> params_len" and "eta \<le> 0"
    and "keyed_permutation H (prng_seed H key) (params_len div 2) = Some (Inr P)"
  shows "compute_permutation H params_len key eta = Some (Inl (ValueError ''eta must be > 0''))"
proof -
  from keyed_permutation_is_permutation [OF assms(3)] assms(1)
  have "length P = nat (params_len div 2)" and "0 < params_len div 2" by auto
  then have "P \<noteq> []" by auto
  then have "map_res (\<lambda>p. keyed_index H p eta key) P = Some (Inl (ValueError ''eta must be > 0''))"
    using assms(2) by (intro map_res_Inl_first) (auto simp: keyed_index_nonpositive)
  moreover have "\<not> params_len div 2 < eta" using assms(1,2) by simp
  ultimately show ?thesis
    using assms by (simp add: compute_permutation_def Let_def)
qed

lemma compute_permutation_coverage:
  assumes "2 \<le> params_len" and "eta \<le> params_len div 2"
    and "keyed_permutation H (prng_seed H key) (params_len div 2) = Some (Inr P)"
    and "\<forall>p \<in> set P. keyed_index H p eta key = Some (Inr (idx p))"
  shows "compute_permutation H params_len key eta =
           (if int (card (idx ` set P)) < eta
            then Some (Inl (ValueError (coverage_msg (card (idx ` set P)) eta)))
            else Some (Inr P))"
proof -
  have "map_res (\<lambda>p. keyed_index H p eta key) P = Some (Inr (map idx P))"
    using assms(4) by (rule map_res_map)
  then show ?thesis
    using assms(1,2,3) by (simp add: compute_permutation_def Let_def)
qed

lemma compute_permutation_Inr:
  assumes "compute_permutation H params_len key eta = Some (Inr P)"
  shows "2 \<le> params_len \<and> 0 < eta \<and> eta \<le> params_len div 2
         \<and> keyed_permutation H (prng_seed H key) (params_len div 2) = Some (Inr P)
         \<and> (\<exists>js. map_res (\<lambda>p. keyed_index H p eta key) P = Some (Inr js)
                \<and> eta \<le> int (card (set js)))"
proof -
  from assms have l: "2 \<le> params_len" and n: "eta \<le> params_len div 2"
    by (auto simp: compute_permutation_def Let_def split: if_splits)
  from assms l n have kp: "keyed_permutation H (prng_seed H key) (params_len div 2) = Some (Inr P)"
    by (auto simp: compute_permutation_def Let_def split: option.splits sum.splits if_splits)
  from assms l n kp obtain js where
    js: "map_res (\<lambda>p. keyed_index H p eta key) P = Some (Inr js)" and c: "eta \<le> int (card (set js))"
    by (auto simp: compute_permutation_def Let_def split: option.splits sum.splits if_splits)
  from keyed_permutation_is_permutation [OF kp] l have "P \<noteq> []" by auto
  then obtain p where "p \<in> set P" by (cases P) auto
  with js obtain j where "keyed_index H p eta key = Some (Inr j)"
    by (auto simp: map_res_Inr_iff list_all2_conv_all_nth in_set_conv_nth)
  from keyed_index_Inr [OF this] have "0 < eta" by simp
  with l n kp js c show ?thesis by blast
qed

lemma compute_permutation_error_propagates:
  assumes "compute_permutation H (int (length ps)) key eta = Some (Inl e)"
  shows "build_watermark_graph H ps key eta = Some (Inl e)
         \<and> (0 \<le> zeta \<longrightarrow> prepare_parameters H ps key zeta eta = Some (Inl e))"
  using assms by (simp add: build_watermark_graph_def prepare_parameters_def)

lemma compute_permutation_eta_zero:
  "compute_permutation H 2 key 0 = Some (Inl (ValueError ''eta must be > 0''))"
proof -
  have "keyed_permutation H (prng_seed H key) (2 div 2) = Some (Inr [0])"
    by (simp add: keyed_permutation_def)
  then show ?thesis
    by (intro compute_permutation_bad_eta) auto
qed

text \<open>
  C5. The three failure conditions of \<open>_compute_permutation\<close> (fewer than 2 parameters,
  fewer pairs than \<open>eta\<close>, fewer than \<open>eta\<close> covered positions) are not the only ones.
  With two parameters and \<open>eta = 0\<close> none of the three holds (2 is not below 2, the one
  pair is not fewer than 0, no set has fewer than 0 elements), and the call still
  raises: \<open>keyed_index\<close> rejects \<open>eta \<le> 0\<close>. By \<open>compute_permutation_eta_zero\<close>
  this is so for every keyed hash and key.
\<close>

theorem compute_permutation_eta_zero_raises:
  "compute_permutation sum_hash 2 ''k'' 0 = Some (Inl (ValueError ''eta must be > 0''))
   \<and> \<not> (2::int) < 2 \<and> \<not> (2::int) div 2 < 0"
  by (simp add: compute_permutation_eta_zero)

text \<open>
  C5, amended. \<open>_compute_permutation\<close> raises when \<open>params_len < 2\<close>; when the number
  of pairs is below \<open>eta\<close>; when \<open>eta \<le> 0\<close> (raised by \<open>keyed_index\<close>, once the
  permutation is made); and, the permutation \<open>P\<close> made and every \<open>keyed_index\<close> call
  returning, exactly when the indices of the pairs in \<open>P\<close> cover fewer than \<open>eta\<close>
  positions, and then it returns \<open>P\<close> otherwise. It returns a permutation in no other
  case. The result is a function of \<open>(params_len, key, eta)\<close>, and an error of it is the
  error of \<open>build_watermark_graph\<close> and (for \<open>zeta \<ge> 0\<close>) of \<open>prepare_parameters\<close> on a
  list of that length.
\<close>

theorem compute_permutation_failures:
  "(params_len < 2 \<longrightarrow>
      compute_permutation H params_len key eta = Some (Inl (ValueError need_pair_msg)))
   \<and> (2 \<le> params_len \<and> params_len div 2 < eta \<longrightarrow>
      compute_permutation H params_len key eta
        = Some (Inl (ValueError (not_enough_msg eta (params_len div 2)))))
   \<and> (2 \<le> params_len \<and> eta \<le> params_len div 2
        \<and> keyed_permutation H (prng_seed H key) (params_len div 2) = Some (Inr P) \<longrightarrow>
        (eta \<le> 0 \<longrightarrow>
           compute_permutation H params_len key eta = Some (Inl (ValueError ''eta must be > 0'')))
      \<and> ((\<forall>p \<in> set P. keyed_index H p eta key = Some (Inr (idx p))) \<longrightarrow>
           compute_permutation H params_len key eta =
             (if int (card (idx ` set P)) < eta
              then Some (Inl (ValueError (coverage_msg (card (idx ` set P)) eta)))
              else Some (Inr P))))
   \<and> (compute_permutation H params_len key eta = Some (Inr P') \<longrightarrow>
        2 \<le> params_len \<and> 0 < eta \<and> eta \<le> params_len div 2
        \<and> keyed_permutation H (prng_seed H key) (params_len div 2) = Some (Inr P')
        \<and> (\<exists>js. map_res (\<lambda>p. keyed_index H p eta key) P' = Some (Inr js)
               \<and> eta \<le> int (card (set js))))
   \<and> (params_len = int (length ps)
        \<and> compute_permutation H params_len key eta = Some (Inl e) \<longrightarrow>
        build_watermark_graph H ps key eta = Some (Inl e)
        \<and> (0 \<le> zeta \<longrightarrow> prepare_parameters H ps key zeta eta = Some (Inl e)))"
proof (intro conjI impI)
  assume "params_len < 2"
  then show "compute_permutation H params_len key eta = Some (Inl (ValueError need_pair_msg))"
    by (rule compute_permutation_short)
next
  assume "2 \<le> params_len \<and> params_len div 2 < eta"
  then show "compute_permutation H params_len key eta
        = Some (Inl (ValueError (not_enough_msg eta (params_len div 2))))"
    by (simp add: compute_permutation_few_pairs)
next
  assume "2 \<le> params_len \<and> eta \<le> params_len div 2
        \<and> keyed_permutation H (prng_seed H key) (params_len div 2) = Some (Inr P)"
    and "eta \<le> 0"
  then show "compute_permutation H params_len key eta = Some (Inl (ValueError ''eta must be > 0''))"
    by (simp add: compute_permutation_bad_eta)
next
  assume "2 \<le> params_len \<and> eta \<le> params_len div 2
        \<and> keyed_permutation H (prng_seed H key) (params_len div 2) = Some (Inr P)"
    and "\<forall>p \<in> set P. keyed_index H p eta key = Some (Inr (idx p))"
  then show "compute_permutation H params_len key eta =
             (if int (card (idx ` set P)) < eta
              then Some (Inl (ValueError (coverage_msg (card (idx ` set P)) eta)))
              else Some (Inr P))"
    by (intro compute_permutation_coverage) simp_all
next
  assume r: "compute_permutation H params_len key eta = Some (Inr P')"
  note f = compute_permutation_Inr [OF r]
  from f show "2 \<le> params_len" by simp
  from f show "0 < eta" by simp
  from f show "eta \<le> params_len div 2" by simp
  from f show "keyed_permutation H (prng_seed H key) (params_len div 2) = Some (Inr P')" by simp
  from f show "\<exists>js. map_res (\<lambda>p. keyed_index H p eta key) P' = Some (Inr js)
               \<and> eta \<le> int (card (set js))" by simp
next
  assume a: "params_len = int (length ps)
        \<and> compute_permutation H params_len key eta = Some (Inl e)"
  then have c: "compute_permutation H (int (length ps)) key eta = Some (Inl e)" by blast
  note f = compute_permutation_error_propagates [OF c, of zeta]
  from f show "build_watermark_graph H ps key eta = Some (Inl e)" by simp
  { assume "0 \<le> zeta"
    with f show "prepare_parameters H ps key zeta eta = Some (Inl e)" by simp }
qed

theorem compute_permutation_failures_witness:
  "compute_permutation sum_hash 1 ''k'' 2 = Some (Inl (ValueError need_pair_msg))
   \<and> compute_permutation sum_hash 4 ''k'' 3 = Some (Inl (ValueError (not_enough_msg 3 2)))
   \<and> compute_permutation sum_hash 4 ''k'' 2 = Some (Inr [0, 1])
   \<and> build_watermark_graph sum_hash [1, 2, 3, 4] ''k'' 3
       = Some (Inl (ValueError (not_enough_msg 3 2)))
   \<and> prepare_parameters sum_hash [1, 2, 3, 4] ''k'' 5 3
       = Some (Inl (ValueError (not_enough_msg 3 2)))"
proof -
  note t = compute_permutation_failures
  have a: "compute_permutation sum_hash 1 ''k'' 2 = Some (Inl (ValueError need_pair_msg))"
    using t [where params_len = 1 and H = sum_hash] by simp
  have b: "compute_permutation sum_hash 4 ''k'' 3 = Some (Inl (ValueError (not_enough_msg 3 2)))"
    using t [where params_len = 4 and eta = 3 and H = sum_hash and key = "''k''"] by simp
  have p2: "keyed_permutation sum_hash (prng_seed sum_hash ''k'') (4 div 2) = Some (Inr [0, 1])"
    by code_simp
  have i2: "\<forall>p \<in> set [0, 1]. keyed_index sum_hash p 2 ''k'' = Some (Inr ([1, 0 :: nat] ! p))"
    by code_simp
  have c2: "card ((\<lambda>p. [1, 0 :: nat] ! p) ` set [0, 1 :: nat]) = (2 :: nat)" by code_simp
  have h2: "(2::int) \<le> 4 \<and> (2::int) \<le> 4 div 2
        \<and> keyed_permutation sum_hash (prng_seed sum_hash ''k'') (4 div 2) = Some (Inr [0, 1])"
    using p2 by simp
  from t [where params_len = 4 and eta = 2 and H = sum_hash and key = "''k''" and P = "[0, 1]"
      and idx = "\<lambda>p. [1, 0 :: nat] ! p"]
  have "(2::int) \<le> 4 \<and> (2::int) \<le> 4 div 2
        \<and> keyed_permutation sum_hash (prng_seed sum_hash ''k'') (4 div 2) = Some (Inr [0, 1])
      \<longrightarrow> ((\<forall>p \<in> set [0, 1]. keyed_index sum_hash p 2 ''k'' = Some (Inr ([1, 0 :: nat] ! p))) \<longrightarrow>
           compute_permutation sum_hash 4 ''k'' 2 =
             (if int (card ((\<lambda>p. [1, 0 :: nat] ! p) ` set [0, 1])) < 2
              then Some (Inl (ValueError (coverage_msg (card ((\<lambda>p. [1, 0 :: nat] ! p) ` set [0, 1])) 2)))
              else Some (Inr [0, 1])))"
    by blast
  with h2 i2 have "compute_permutation sum_hash 4 ''k'' 2 =
             (if int (card ((\<lambda>p. [1, 0 :: nat] ! p) ` set [0, 1])) < 2
              then Some (Inl (ValueError (coverage_msg (card ((\<lambda>p. [1, 0 :: nat] ! p) ` set [0, 1])) 2)))
              else Some (Inr [0, 1]))"
    by blast
  then have c: "compute_permutation sum_hash 4 ''k'' 2 = Some (Inr [0, 1])"
    unfolding c2 by simp
  from t [where params_len = 4 and eta = 3 and H = sum_hash and key = "''k''"
      and ps = "[1, 2, 3, 4]" and e = "ValueError (not_enough_msg 3 2)" and zeta = 5] b
  have d: "build_watermark_graph sum_hash [1, 2, 3, 4] ''k'' 3
       = Some (Inl (ValueError (not_enough_msg 3 2)))
   \<and> prepare_parameters sum_hash [1, 2, 3, 4] ''k'' 5 3
       = Some (Inl (ValueError (not_enough_msg 3 2)))"
    by simp
  show ?thesis using a b c d by simp
qed

subsection \<open>The loops over pairs\<close>

lemma embed_bit_Inr_D:
  assumes "embed_bit x y b = Inr e"
  shows "(b = 0 \<or> b = 1) \<and> (x_embedded e - y_embedded e) mod 2 = b
         \<and> snd (extract_bit_and_restore (x_embedded e) (y_embedded e)) = (x, y)"
proof -
  from assms have b: "b = 0 \<or> b = 1"
    by (auto simp: embed_bit_def split: if_splits)
  from embed_bit_values [OF b, of x y] assms
  have e: "e = \<lparr>x_embedded = (x + y) div 2 + (x - y) + b, y_embedded = (x + y) div 2 - (x - y)\<rparr>"
    by simp
  have "x_embedded e - y_embedded e = 2 * (x - y) + b"
    unfolding e by simp
  moreover have "(2 * (x - y) + b) mod 2 = b"
    using b by presburger
  ultimately have "(x_embedded e - y_embedded e) mod 2 = b"
    by simp
  moreover have "snd (extract_bit_and_restore (x_embedded e) (y_embedded e)) = (x, y)"
    unfolding e using extract_after_embed [OF b, of x y] by simp
  ultimately show ?thesis using b by simp
qed

lemma embed_loop_length:
  "embed_loop gamma P I = Inr I' \<Longrightarrow> length I' = length I"
proof (induction P arbitrary: I)
  case Nil
  then show ?case by simp
next
  case (Cons p ps)
  from Cons.prems obtain emb :: EmbeddedPair where
    "embed_loop gamma ps (I[2 * p := x_embedded emb, 2 * p + 1 := y_embedded emb]) = Inr I'"
    by (auto simp: Let_def split: if_splits sum.splits)
  from Cons.IH [OF this] show ?case by simp
qed

lemma embed_loop_result:
  assumes "embed_loop gamma P I = Inr I'" and "distinct P"
  shows "(\<forall>p \<in> set P. 2 * p + 1 < length I
            \<and> embed_bit (I ! (2 * p)) (I ! (2 * p + 1)) (gamma ! p)
                = Inr \<lparr>x_embedded = I' ! (2 * p), y_embedded = I' ! (2 * p + 1)\<rparr>)
         \<and> (\<forall>k. k div 2 \<notin> set P \<longrightarrow> I' ! k = I ! k)"
  using assms
proof (induction P arbitrary: I)
  case Nil
  then show ?case by simp
next
  case (Cons p ps)
  from Cons.prems(1) obtain emb :: EmbeddedPair where
    r: "2 * p + 1 < length I" and
    e: "embed_bit (I ! (2 * p)) (I ! (2 * p + 1)) (gamma ! p) = Inr emb" and
    l: "embed_loop gamma ps (I[2 * p := x_embedded emb, 2 * p + 1 := y_embedded emb]) = Inr I'"
    by (auto simp: Let_def split: if_splits sum.splits)
  let ?J = "I[2 * p := x_embedded emb, 2 * p + 1 := y_embedded emb]"
  from Cons.prems(2) have d: "distinct ps" and n: "p \<notin> set ps" by simp_all
  note ih = Cons.IH [OF l d]
  have same: "?J ! k = I ! k" if "k div 2 \<noteq> p" for k
  proof -
    from that have "k \<noteq> 2 * p" and "k \<noteq> 2 * p + 1" by auto
    then show ?thesis by simp
  qed
  have jx: "?J ! (2 * p) = x_embedded emb" and jy: "?J ! (2 * p + 1) = y_embedded emb"
    using r by simp_all
  have px: "I' ! (2 * p) = x_embedded emb"
    using ih n jx by (metis nonzero_mult_div_cancel_left zero_neq_numeral)
  have "(2 * p + 1) div 2 = p" by simp
  then have py: "I' ! (2 * p + 1) = y_embedded emb"
    using ih n jy by metis
  show ?case
  proof (intro conjI ballI allI impI)
    fix q assume q: "q \<in> set (p # ps)"
    show "2 * q + 1 < length I"
    proof (cases "q = p")
      case True then show ?thesis using r by simp
    next
      case False
      with q have "q \<in> set ps" by simp
      with ih have "2 * q + 1 < length ?J" by blast
      then show ?thesis by simp
    qed
    show "embed_bit (I ! (2 * q)) (I ! (2 * q + 1)) (gamma ! q)
            = Inr \<lparr>x_embedded = I' ! (2 * q), y_embedded = I' ! (2 * q + 1)\<rparr>"
    proof (cases "q = p")
      case True then show ?thesis using e px py by simp
    next
      case False
      with q have qs: "q \<in> set ps" by simp
      have "(2 * q) div 2 \<noteq> p" and "(2 * q + 1) div 2 \<noteq> p" using False by simp_all
      then have eqs: "?J ! (2 * q) = I ! (2 * q)" "?J ! (2 * q + 1) = I ! (2 * q + 1)"
        using same by blast+
      from ih qs have "embed_bit (?J ! (2 * q)) (?J ! (2 * q + 1)) (gamma ! q)
            = Inr \<lparr>x_embedded = I' ! (2 * q), y_embedded = I' ! (2 * q + 1)\<rparr>"
        by blast
      then show ?thesis unfolding eqs .
    qed
  next
    fix k assume "k div 2 \<notin> set (p # ps)"
    then have "k div 2 \<noteq> p" and "k div 2 \<notin> set ps" by simp_all
    then show "I' ! k = I ! k" using ih same by simp
  qed
qed

lemma list_position_nat:
  "list_position xs (int k) = (if k < length xs then Some k else None)"
  "list_position xs (2 * int k) = (if 2 * k < length xs then Some (2 * k) else None)"
  "list_position xs (2 * int k + 1) = (if 2 * k + 1 < length xs then Some (2 * k + 1) else None)"
proof -
  show "list_position xs (int k) = (if k < length xs then Some k else None)"
    by (simp add: list_position_def)
  have "nat (2 * int k) = 2 * k" by simp
  then show "list_position xs (2 * int k) = (if 2 * k < length xs then Some (2 * k) else None)"
    unfolding list_position_def Let_def by auto
  have "nat (2 * int k + 1) = 2 * k + 1" by simp
  then show "list_position xs (2 * int k + 1)
               = (if 2 * k + 1 < length xs then Some (2 * k + 1) else None)"
    unfolding list_position_def Let_def by auto
qed

text \<open>On an index that is not negative the two loops index as usual.\<close>

lemma restore_loop_Cons_nat:
  "restore_loop (int p # ps) I =
     (if \<not> 2 * p + 1 < length I then Inl index_error
      else
        let x_p = I ! (2 * p);
            y_p = I ! (2 * p + 1);
            (b, (x, y)) = extract_bit_and_restore x_p y_p
        in restore_loop ps (I[2 * p := x, 2 * p + 1 := y]))"
  by (simp add: list_position_nat)

lemma hints_loop_Cons_nat:
  "hints_loop I (int p # ps) gamma =
     (if \<not> 2 * p + 1 < length I then Inl index_error
      else
        let x = I ! (2 * p);
            y = I ! (2 * p + 1)
        in if \<not> p < length gamma then Inl assign_error
           else hints_loop I ps (gamma[p := (x - y) mod 2]))"
  by (simp add: list_position_nat)

lemma restore_loop_result:
  assumes "distinct P" and "\<forall>p \<in> set P. 2 * p + 1 < length I"
  shows "\<exists>I'. restore_loop (map int P) I = Inr I' \<and> length I' = length I
           \<and> (\<forall>p \<in> set P. (I' ! (2 * p), I' ! (2 * p + 1))
                  = snd (extract_bit_and_restore (I ! (2 * p)) (I ! (2 * p + 1))))
           \<and> (\<forall>k. k div 2 \<notin> set P \<longrightarrow> I' ! k = I ! k)"
  using assms
proof (induction P arbitrary: I)
  case Nil
  then show ?case by simp
next
  case (Cons p ps)
  obtain b x y where ex: "extract_bit_and_restore (I ! (2 * p)) (I ! (2 * p + 1)) = (b, (x, y))"
    by (metis prod_cases3)
  let ?J = "I[2 * p := x, 2 * p + 1 := y]"
  from Cons.prems have r: "2 * p + 1 < length I" and d: "distinct ps" and n: "p \<notin> set ps"
    and rs: "\<forall>q \<in> set ps. 2 * q + 1 < length ?J"
    by simp_all
  from Cons.IH [OF d rs] obtain I' where
    l: "restore_loop (map int ps) ?J = Inr I'" and len: "length I' = length ?J" and
    pr: "\<forall>q \<in> set ps. (I' ! (2 * q), I' ! (2 * q + 1))
            = snd (extract_bit_and_restore (?J ! (2 * q)) (?J ! (2 * q + 1)))" and
    un: "\<forall>k. k div 2 \<notin> set ps \<longrightarrow> I' ! k = ?J ! k"
    by blast
  have same: "?J ! k = I ! k" if "k div 2 \<noteq> p" for k
  proof -
    from that have "k \<noteq> 2 * p" and "k \<noteq> 2 * p + 1" by auto
    then show ?thesis by simp
  qed
  have res: "restore_loop (map int (p # ps)) I = Inr I'"
    using r l ex by (simp add: list_position_nat Let_def)
  have "(2 * p) div 2 = p" and "(2 * p + 1) div 2 = p" by simp_all
  then have "I' ! (2 * p) = ?J ! (2 * p)" and "I' ! (2 * p + 1) = ?J ! (2 * p + 1)"
    using un n by metis+
  then have pp: "(I' ! (2 * p), I' ! (2 * p + 1)) = (x, y)"
    using r by simp
  have pairs: "(I' ! (2 * q), I' ! (2 * q + 1))
                  = snd (extract_bit_and_restore (I ! (2 * q)) (I ! (2 * q + 1)))"
    if q: "q \<in> set (p # ps)" for q
  proof (cases "q = p")
    case True
    then show ?thesis using pp ex by simp
  next
    case False
    with q have qs: "q \<in> set ps" by simp
    have "(2 * q) div 2 \<noteq> p" and "(2 * q + 1) div 2 \<noteq> p" using False by simp_all
    then have eqs: "?J ! (2 * q) = I ! (2 * q)" "?J ! (2 * q + 1) = I ! (2 * q + 1)"
      using same by blast+
    from pr qs have "(I' ! (2 * q), I' ! (2 * q + 1))
            = snd (extract_bit_and_restore (?J ! (2 * q)) (?J ! (2 * q + 1)))" by blast
    then show ?thesis unfolding eqs .
  qed
  have unch: "I' ! k = I ! k" if "k div 2 \<notin> set (p # ps)" for k
  proof -
    from that have "k div 2 \<noteq> p" and "k div 2 \<notin> set ps" by simp_all
    then show ?thesis using un same by simp
  qed
  from res len pairs unch show ?case by auto
qed

lemma restore_after_embed:
  assumes e: "embed_loop gamma P I = Inr I'" and d: "distinct P"
  shows "restore_loop (map int P) I' = Inr I"
proof -
  note er = embed_loop_result [OF e d]
  have len: "length I' = length I" using e by (rule embed_loop_length)
  from er have rng: "\<forall>p \<in> set P. 2 * p + 1 < length I'" using len by simp
  from restore_loop_result [OF d rng] obtain R where
    r: "restore_loop (map int P) I' = Inr R" and rl: "length R = length I'" and
    pr: "\<forall>p \<in> set P. (R ! (2 * p), R ! (2 * p + 1))
            = snd (extract_bit_and_restore (I' ! (2 * p)) (I' ! (2 * p + 1)))" and
    un: "\<forall>k. k div 2 \<notin> set P \<longrightarrow> R ! k = I' ! k"
    by blast
  have "R = I"
  proof (rule nth_equalityI)
    show "length R = length I" using rl len by simp
  next
    fix k assume "k < length R"
    show "R ! k = I ! k"
    proof (cases "k div 2 \<in> set P")
      case False
      then show ?thesis using un er by simp
    next
      case True
      let ?p = "k div 2"
      from er True have
        "embed_bit (I ! (2 * ?p)) (I ! (2 * ?p + 1)) (gamma ! ?p)
           = Inr \<lparr>x_embedded = I' ! (2 * ?p), y_embedded = I' ! (2 * ?p + 1)\<rparr>"
        by blast
      from embed_bit_Inr_D [OF this]
      have "snd (extract_bit_and_restore (I' ! (2 * ?p)) (I' ! (2 * ?p + 1)))
              = (I ! (2 * ?p), I ! (2 * ?p + 1))"
        by simp
      with pr True have both: "R ! (2 * ?p) = I ! (2 * ?p)" "R ! (2 * ?p + 1) = I ! (2 * ?p + 1)"
        by auto
      have "k = 2 * ?p \<or> k = 2 * ?p + 1" by presburger
      then show ?thesis using both by metis
    qed
  qed
  with r show ?thesis by simp
qed

lemma hints_loop_result:
  assumes "\<forall>p \<in> set P. 2 * p + 1 < length I \<and> p < length g"
  shows "\<exists>g'. hints_loop I (map int P) g = Inr g' \<and> length g' = length g
           \<and> (\<forall>p \<in> set P. g' ! p = (I ! (2 * p) - I ! (2 * p + 1)) mod 2)
           \<and> (\<forall>q. q \<notin> set P \<longrightarrow> g' ! q = g ! q)"
  using assms
proof (induction P arbitrary: g)
  case Nil
  then show ?case by simp
next
  case (Cons p ps)
  let ?v = "(I ! (2 * p) - I ! (2 * p + 1)) mod 2"
  let ?h = "g[p := ?v]"
  from Cons.prems have r: "2 * p + 1 < length I" and pg: "p < length g"
    and rs: "\<forall>q \<in> set ps. 2 * q + 1 < length I \<and> q < length ?h"
    by simp_all
  from Cons.IH [OF rs] obtain g' where
    l: "hints_loop I (map int ps) ?h = Inr g'" and len: "length g' = length ?h" and
    vals: "\<forall>q \<in> set ps. g' ! q = (I ! (2 * q) - I ! (2 * q + 1)) mod 2" and
    un: "\<forall>q. q \<notin> set ps \<longrightarrow> g' ! q = ?h ! q"
    by blast
  have res: "hints_loop I (map int (p # ps)) g = Inr g'"
    using r pg l by (simp add: list_position_nat Let_def)
  have hp: "g' ! p = ?v"
  proof (cases "p \<in> set ps")
    case True then show ?thesis using vals by blast
  next
    case False then show ?thesis using un pg by simp
  qed
  have v2: "\<forall>q \<in> set (p # ps). g' ! q = (I ! (2 * q) - I ! (2 * q + 1)) mod 2"
    using hp vals by simp
  have u2: "\<forall>q. q \<notin> set (p # ps) \<longrightarrow> g' ! q = g ! q"
    using un by simp
  from res len v2 u2 show ?case by auto
qed

subsection \<open>Lists of odd length\<close>

lemma embed_loop_snoc:
  assumes "even (length I)"
  shows "embed_loop gamma P (I @ [a]) =
           (case embed_loop gamma P I of Inl e \<Rightarrow> Inl e | Inr I' \<Rightarrow> Inr (I' @ [a]))"
  using assms
proof (induction P arbitrary: I)
  case Nil
  then show ?case by simp
next
  case (Cons p ps)
  show ?case
  proof (cases "2 * p + 1 < length I")
    case False
    with Cons.prems have "\<not> 2 * p < length I" by presburger
    with False show ?thesis by simp
  next
    case True
    then have n: "(I @ [a]) ! (2 * p) = I ! (2 * p)" "(I @ [a]) ! (2 * p + 1) = I ! (2 * p + 1)"
      by (simp_all add: nth_append)
    have u: "(I @ [a])[2 * p := x, 2 * p + 1 := y] = I[2 * p := x, 2 * p + 1 := y] @ [a]" for x y
      using True by (simp add: list_update_append)
    have ev: "even (length (I[2 * p := x, 2 * p + 1 := y]))" for x y
      using Cons.prems by simp
    show ?thesis
      using True n u Cons.IH [OF ev]
      by (simp add: Let_def split: sum.splits)
  qed
qed

lemma restore_loop_snoc:
  assumes "even (length I)"
  shows "restore_loop (map int P) (I @ [a]) =
           (case restore_loop (map int P) I of Inl e \<Rightarrow> Inl e | Inr I' \<Rightarrow> Inr (I' @ [a]))"
  using assms
proof (induction P arbitrary: I)
  case Nil
  then show ?case by simp
next
  case (Cons p ps)
  show ?case
  proof (cases "2 * p + 1 < length I")
    case False
    with Cons.prems have "\<not> 2 * p < length I" by presburger
    with False show ?thesis by (simp add: list_position_nat)
  next
    case True
    then have n: "(I @ [a]) ! (2 * p) = I ! (2 * p)" "(I @ [a]) ! (2 * p + 1) = I ! (2 * p + 1)"
      by (simp_all add: nth_append)
    have u: "(I @ [a])[2 * p := x, 2 * p + 1 := y] = I[2 * p := x, 2 * p + 1 := y] @ [a]" for x y
      using True by (simp add: list_update_append)
    have ev: "even (length (I[2 * p := x, 2 * p + 1 := y]))" for x y
      using Cons.prems by simp
    show ?thesis
      using True n u Cons.IH [OF ev]
      by (simp add: list_position_nat Let_def split: prod.splits)
  qed
qed

lemma hints_loop_snoc:
  assumes "even (length I)"
  shows "hints_loop (I @ [a]) (map int P) g = hints_loop I (map int P) g"
proof (induction P arbitrary: g)
  case Nil
  then show ?case by simp
next
  case (Cons p ps)
  show ?case
  proof (cases "2 * p + 1 < length I")
    case False
    with assms have "\<not> 2 * p < length I" by presburger
    with False show ?thesis by (simp add: list_position_nat)
  next
    case True
    then have n: "(I @ [a]) ! (2 * p) = I ! (2 * p)" "(I @ [a]) ! (2 * p + 1) = I ! (2 * p + 1)"
      by (simp_all add: nth_append)
    show ?thesis
      using True n Cons.IH by (simp add: list_position_nat Let_def)
  qed
qed

lemma compute_permutation_snoc:
  assumes "even (length I)"
  shows "compute_permutation H (int (length (I @ [a]))) key eta
           = compute_permutation H (int (length I)) key eta"
proof -
  from assms obtain m where m: "length I = 2 * m" by (auto elim: evenE)
  have d: "(int (2 * m) + 1) div 2 = int (2 * m) div 2" by simp
  have l: "int (2 * m) + 1 < 2 \<longleftrightarrow> int (2 * m) < 2" by presburger
  show ?thesis
    unfolding compute_permutation_def using d l by (simp add: m)
qed

lemma div2_snoc: "even (length I) \<Longrightarrow> length (I @ [a]) div 2 = length I div 2"
  by (auto elim: evenE)

lemma hints_detection_snoc:
  "even (length I) \<Longrightarrow> hints_detection (I @ [a]) (map int P) = hints_detection I (map int P)"
  unfolding hints_detection_def Let_def by (simp add: div2_snoc hints_loop_snoc)

lemma nonnegative_entries:
  assumes "\<forall>p \<in> set P. (0::int) \<le> p"
  shows "P = map int (map nat P)"
  using assms by (induction P) simp_all

lemma restore_loop_keeps_last:
  assumes "restore_loop P J = Inr R" and "odd (length J)" and "- 1 \<notin> set P"
  shows "length R = length J \<and> last R = last J"
  using assms
proof (induction P arbitrary: J)
  case Nil
  then show ?case by simp
next
  case (Cons p ps)
  from Cons.prems(1) obtain kx ky where
    kx: "list_position J (2 * p) = Some kx" and ky: "list_position J (2 * p + 1) = Some ky"
    by (auto split: option.splits)
  obtain b x y where ex: "extract_bit_and_restore (J ! kx) (J ! ky) = (b, (x, y))"
    by (metis prod_cases3)
  let ?J = "J[kx := x, ky := y]"
  from Cons.prems(1) kx ky ex have l: "restore_loop ps ?J = Inr R"
    by (simp add: Let_def)
  from Cons.prems(2) have o: "odd (length ?J)" by simp
  from Cons.prems(3) have n: "- 1 \<notin> set ps" and p: "p \<noteq> - 1" by auto
  from Cons.IH [OF l o n] have ih: "length R = length J" "last R = last ?J" by simp_all
  from Cons.prems(2) have ne: "J \<noteq> []" by auto
  have x: "kx \<noteq> length J - 1"
    using kx ky p Cons.prems(2)
    by (auto simp: list_position_def Let_def split: if_splits elim!: oddE)
  have y: "ky \<noteq> length J - 1"
    using kx ky p Cons.prems(2)
    by (auto simp: list_position_def Let_def split: if_splits elim!: oddE)
  have "last ?J = ?J ! (length J - 1)" using ne by (simp add: last_conv_nth)
  also have "\<dots> = J ! (length J - 1)" using x y by simp
  also have "\<dots> = last J" using ne by (simp add: last_conv_nth)
  finally show ?case using ih by simp
qed

text \<open>
  C9. The frame property of the pair loops does not hold for every \<open>P\<close> that a caller
  can pass to \<open>restore_params_from_pairs\<close> and \<open>hints_detection\<close>. The entry \<open>- 1\<close> names
  the last two positions of the list: on a list of odd length
  \<open>restore_params_from_pairs\<close> then reads and rewrites the final element, and the
  result of \<open>hints_detection\<close> depends on it.
\<close>

theorem negative_entry_reaches_last:
  "restore_params_from_pairs [9, 14, - 1] [- 1] = Inr [9, 10, 3]
   \<and> hints_detection [9, 14, 1] [- 1] = Inr [1]
   \<and> hints_detection [9, 14, 2] [- 1] = Inr [0]"
  by code_simp

text \<open>
  C9, with the range of \<open>P\<close> stated. A list of odd length is an even-length list \<open>I\<close>
  followed by one element \<open>a\<close>. It is accepted, and \<open>prepare_parameters\<close> and
  \<open>build_watermark_graph\<close>, which make their permutation themselves, process it as
  they process \<open>I\<close> alone: \<open>prepare_parameters\<close> fails or succeeds as on \<open>I\<close> and returns
  the watermarked \<open>I\<close> followed by \<open>a\<close> unchanged, and \<open>build_watermark_graph\<close> does not
  depend on \<open>a\<close>. For a \<open>P\<close> with no negative entry, \<open>restore_params_from_pairs\<close> fails or
  succeeds as on \<open>I\<close> and returns the restored \<open>I\<close> followed by \<open>a\<close> unchanged, and
  \<open>hints_detection\<close> does not depend on \<open>a\<close>; so for such a \<open>P\<close> none of them reads or
  writes the position after the last full pair. For any \<open>P\<close> without the entry \<open>- 1\<close>,
  what \<open>restore_params_from_pairs\<close> returns still ends with \<open>a\<close>.
\<close>

theorem odd_length_frame:
  assumes "even (length I)"
  shows "prepare_parameters H (I @ [a]) key zeta eta =
           (case prepare_parameters H I key zeta eta of
              None \<Rightarrow> None
            | Some (Inl e) \<Rightarrow> Some (Inl e)
            | Some (Inr r) \<Rightarrow> Some (Inr (r\<lparr>watermarked_params := watermarked_params r @ [a]\<rparr>)))
         \<and> build_watermark_graph H (I @ [a]) key eta = build_watermark_graph H I key eta
         \<and> ((\<forall>p \<in> set P. 0 \<le> p) \<longrightarrow>
              restore_params_from_pairs (I @ [a]) P =
                (case restore_params_from_pairs I P of
                   Inl e \<Rightarrow> Inl e
                 | Inr R \<Rightarrow> Inr (R @ [a]))
              \<and> hints_detection (I @ [a]) P = hints_detection I P)
         \<and> (- 1 \<notin> set P \<and> restore_params_from_pairs (I @ [a]) P = Inr R' \<longrightarrow>
              length R' = length (I @ [a]) \<and> last R' = a)"
proof (intro conjI impI)
  show "prepare_parameters H (I @ [a]) key zeta eta =
           (case prepare_parameters H I key zeta eta of
              None \<Rightarrow> None
            | Some (Inl e) \<Rightarrow> Some (Inl e)
            | Some (Inr r) \<Rightarrow> Some (Inr (r\<lparr>watermarked_params := watermarked_params r @ [a]\<rparr>)))"
    unfolding prepare_parameters_def compute_permutation_snoc [OF assms]
      div2_snoc [OF assms] Let_def embed_loop_snoc [OF assms]
    by (simp split: option.splits sum.splits)
  show "build_watermark_graph H (I @ [a]) key eta = build_watermark_graph H I key eta"
    unfolding build_watermark_graph_def compute_permutation_snoc [OF assms]
      hints_detection_snoc [OF assms] ..
next
  assume "\<forall>p \<in> set P. 0 \<le> p"
  then have P: "P = map int (map nat P)" by (rule nonnegative_entries)
  have "restore_params_from_pairs (I @ [a]) (map int (map nat P)) =
             (case restore_params_from_pairs I (map int (map nat P)) of
                Inl e \<Rightarrow> Inl e
              | Inr R \<Rightarrow> Inr (R @ [a]))"
    unfolding restore_params_from_pairs_def by (rule restore_loop_snoc [OF assms])
  with P show "restore_params_from_pairs (I @ [a]) P =
             (case restore_params_from_pairs I P of
                Inl e \<Rightarrow> Inl e
              | Inr R \<Rightarrow> Inr (R @ [a]))"
    by simp
  have "hints_detection (I @ [a]) (map int (map nat P)) = hints_detection I (map int (map nat P))"
    by (rule hints_detection_snoc [OF assms])
  with P show "hints_detection (I @ [a]) P = hints_detection I P"
    by simp
next
  assume r: "- 1 \<notin> set P \<and> restore_params_from_pairs (I @ [a]) P = Inr R'"
  then have l: "restore_loop P (I @ [a]) = Inr R'" and n: "- 1 \<notin> set P"
    by (simp_all add: restore_params_from_pairs_def)
  from assms have o: "odd (length (I @ [a]))" by simp
  from restore_loop_keeps_last [OF l o n]
  show "length R' = length (I @ [a])" and "last R' = a" by simp_all
qed

theorem odd_length_frame_witness:
  "even (length [10, 3, - 4, 7 :: int])
   \<and> prepare_parameters sum_hash ([10, 3, - 4, 7] @ [9]) ''k'' 1 2
       = Some (Inr \<lparr>watermarked_params = [14, - 1, - 10, 12] @ [9], prep_permutation = [0, 1],
                    prep_eta = 2\<rparr>)
   \<and> restore_params_from_pairs ([14, - 1, - 10, 12] @ [9]) [0, 1] = Inr ([10, 3, - 4, 7] @ [9])
   \<and> hints_detection ([14, - 1, - 10, 12] @ [9]) [0, 1] = Inr [1, 0]
   \<and> restore_params_from_pairs ([14, - 1, - 10, 12] @ [9]) [- 2] = Inr [14, - 4, - 8, 12, 9]
   \<and> last [14, - 4, - 8, 12, 9 :: int] = 9"
proof -
  have e: "even (length [10, 3, - 4, 7 :: int])" by simp
  have p: "prepare_parameters sum_hash [10, 3, - 4, 7] ''k'' 1 2
       = Some (Inr \<lparr>watermarked_params = [14, - 1, - 10, 12], prep_permutation = [0, 1],
                    prep_eta = 2\<rparr>)"
    by code_simp
  have r: "restore_params_from_pairs [14, - 1, - 10, 12] [0, 1] = Inr [10, 3, - 4, 7]"
    by code_simp
  have h: "hints_detection [14, - 1, - 10, 12] [0, 1] = Inr [1, 0]"
    by code_simp
  have s: "restore_params_from_pairs ([14, - 1, - 10, 12] @ [9]) [- 2] = Inr [14, - 4, - 8, 12, 9]"
    by code_simp
  from odd_length_frame [OF e, of sum_hash 9 "''k''" 1 2]
  have a: "prepare_parameters sum_hash ([10, 3, - 4, 7] @ [9]) ''k'' 1 2
       = Some (Inr \<lparr>watermarked_params = [14, - 1, - 10, 12] @ [9], prep_permutation = [0, 1],
                    prep_eta = 2\<rparr>)"
    unfolding p by simp
  have e2: "even (length [14, - 1, - 10, 12 :: int])" by simp
  have nn: "\<forall>p \<in> set [0, 1 :: int]. 0 \<le> p" by simp
  from odd_length_frame [OF e2, of sum_hash 9 "''k''" 1 2 "[0, 1]"] nn
  have b: "restore_params_from_pairs ([14, - 1, - 10, 12] @ [9]) [0, 1] = Inr ([10, 3, - 4, 7] @ [9])"
    and c: "hints_detection ([14, - 1, - 10, 12] @ [9]) [0, 1] = Inr [1, 0]"
    unfolding r h by simp_all
  have m: "- 1 \<notin> set [- 2 :: int]" by simp
  from odd_length_frame [OF e2, of sum_hash 9 "''k''" 1 2 "[- 2]" "[14, - 4, - 8, 12, 9]"] m s
  have d: "last [14, - 4, - 8, 12, 9 :: int] = 9"
    by blast
  from e a b c s d show ?thesis by blast
qed

subsection \<open>The code builder\<close>

lemma fold_update_range:
  "k \<le> length xs \<Longrightarrow>
   fold (\<lambda>j ys. ys[j := f j]) [0..<k] xs = map f [0..<k] @ drop k xs"
proof (induction k)
  case 0
  then show ?case by simp
next
  case (Suc k)
  then have k: "k < length xs" by simp
  have "fold (\<lambda>j ys. ys[j := f j]) [0..<Suc k] xs
          = (map f [0..<k] @ drop k xs)[k := f k]"
    using Suc by simp
  also have "\<dots> = map f [0..<k] @ (drop k xs)[0 := f k]"
    by (simp add: list_update_append)
  also have "(drop k xs)[0 := f k] = f k # drop (Suc k) xs"
    using k by (simp add: Cons_nth_drop_Suc [symmetric])
  finally show ?case by simp
qed

lemma votes_loop_result:
  assumes "\<forall>p \<in> set P. keyed_index H p eta key = Some (Inr (idx p)) \<and> p < length gamma"
    and "length ones = nat eta" and "length zeros = nat eta"
  shows "\<exists>ones' zeros'. votes_loop H gamma eta key P ones zeros = Some (Inr (ones', zeros'))
           \<and> length ones' = nat eta \<and> length zeros' = nat eta
           \<and> (\<forall>j < nat eta. ones' ! j = ones ! j + one_votes idx gamma P j
                  \<and> zeros' ! j = zeros ! j + zero_votes idx gamma P j)"
  using assms
proof (induction P arbitrary: ones zeros)
  case Nil
  then show ?case by (simp add: one_votes_def zero_votes_def)
next
  case (Cons p ps)
  from Cons.prems(1) have ki: "keyed_index H p eta key = Some (Inr (idx p))"
    and pg: "p < length gamma"
    and rest: "\<forall>q \<in> set ps. keyed_index H q eta key = Some (Inr (idx q)) \<and> q < length gamma"
    by simp_all
  from keyed_index_Inr [OF ki] have ir: "idx p < nat eta" by linarith
  show ?case
  proof (cases "gamma ! p = 1")
    case True
    let ?o = "ones[idx p := ones ! idx p + 1]"
    have "length ?o = nat eta" using Cons.prems(2) by simp
    from Cons.IH [OF rest this Cons.prems(3)] obtain ones' zeros' where
      l: "votes_loop H gamma eta key ps ?o zeros = Some (Inr (ones', zeros'))" and
      len: "length ones' = nat eta" "length zeros' = nat eta" and
      v: "\<forall>j < nat eta. ones' ! j = ?o ! j + one_votes idx gamma ps j
                  \<and> zeros' ! j = zeros ! j + zero_votes idx gamma ps j"
      by blast
    have res: "votes_loop H gamma eta key (p # ps) ones zeros = Some (Inr (ones', zeros'))"
      using ki pg True ir Cons.prems(2) l by simp
    have "ones' ! j = ones ! j + one_votes idx gamma (p # ps) j
            \<and> zeros' ! j = zeros ! j + zero_votes idx gamma (p # ps) j" if "j < nat eta" for j
      using v that True ir Cons.prems(2)
      by (cases "idx p = j") (auto simp: one_votes_def zero_votes_def)
    with res len show ?thesis by blast
  next
    case False
    let ?z = "zeros[idx p := zeros ! idx p + 1]"
    have "length ?z = nat eta" using Cons.prems(3) by simp
    from Cons.IH [OF rest Cons.prems(2) this] obtain ones' zeros' where
      l: "votes_loop H gamma eta key ps ones ?z = Some (Inr (ones', zeros'))" and
      len: "length ones' = nat eta" "length zeros' = nat eta" and
      v: "\<forall>j < nat eta. ones' ! j = ones ! j + one_votes idx gamma ps j
                  \<and> zeros' ! j = ?z ! j + zero_votes idx gamma ps j"
      by blast
    have res: "votes_loop H gamma eta key (p # ps) ones zeros = Some (Inr (ones', zeros'))"
      using ki pg False ir Cons.prems(3) l by simp
    have "ones' ! j = ones ! j + one_votes idx gamma (p # ps) j
            \<and> zeros' ! j = zeros ! j + zero_votes idx gamma (p # ps) j" if "j < nat eta" for j
      using v that False ir Cons.prems(3)
      by (cases "idx p = j") (auto simp: one_votes_def zero_votes_def)
    with res len show ?thesis by blast
  qed
qed

lemma code_builder_result:
  assumes "\<forall>p \<in> set P. keyed_index H p eta key = Some (Inr (idx p)) \<and> p < length gamma"
  shows "code_builder H gamma eta key P =
           Some (Inr (map (\<lambda>j. decide_bit H key ''KBit|v1'' j (one_votes idx gamma P j)
                                  (zero_votes idx gamma P j)) [0..<nat eta]))"
proof -
  from votes_loop_result [OF assms, of "replicate (nat eta) 0" "replicate (nat eta) 0"]
  obtain ones' zeros' where
    l: "votes_loop H gamma eta key P (replicate (nat eta) 0) (replicate (nat eta) 0)
          = Some (Inr (ones', zeros'))" and
    v: "\<forall>j < nat eta. ones' ! j = one_votes idx gamma P j \<and> zeros' ! j = zero_votes idx gamma P j"
    by auto
  have "fold (\<lambda>j z2. z2[j := decide_bit H key ''KBit|v1'' j (ones' ! j) (zeros' ! j)])
          [0..<nat eta] (replicate (nat eta) 0)
        = map (\<lambda>j. decide_bit H key ''KBit|v1'' j (ones' ! j) (zeros' ! j)) [0..<nat eta]"
    by (simp add: fold_update_range)
  also have "\<dots> = map (\<lambda>j. decide_bit H key ''KBit|v1'' j (one_votes idx gamma P j)
                                  (zero_votes idx gamma P j)) [0..<nat eta]"
    using v by simp
  finally show ?thesis
    using l by (simp add: code_builder_def Let_def)
qed

text \<open>
  C6. When every \<open>keyed_index\<close> call returns (giving pair \<open>p\<close> the position \<open>idx p\<close>) and
  \<open>gamma\<close> has an entry for every pair of \<open>P\<close>, \<open>code_builder\<close> returns \<open>eta\<close> bits, and
  for every position \<open>j\<close> below \<open>eta\<close>: with at least one 1-vote and no 0-vote the bit
  is 1; with at least one 0-vote and no 1-vote the bit is 0; in every other case (any
  mix of 1-votes and 0-votes, tie or not) the bit is \<open>keyed_bit\<close> of the key and the
  label \<^verbatim>\<open>KBit|v1|chaos|j=..|o=..|z=..\<close> made of \<open>j\<close> and the two counts.
\<close>

theorem code_builder_bits:
  assumes "\<forall>p \<in> set P. keyed_index H p eta key = Some (Inr (idx p)) \<and> p < length gamma"
  shows "\<exists>zeta2. code_builder H gamma eta key P = Some (Inr zeta2) \<and> length zeta2 = nat eta
           \<and> (\<forall>j < nat eta.
                (0 < one_votes idx gamma P j \<and> zero_votes idx gamma P j = 0 \<longrightarrow> zeta2 ! j = 1)
              \<and> (0 < zero_votes idx gamma P j \<and> one_votes idx gamma P j = 0 \<longrightarrow> zeta2 ! j = 0)
              \<and> (\<not> (0 < one_votes idx gamma P j \<and> zero_votes idx gamma P j = 0)
                   \<and> \<not> (0 < zero_votes idx gamma P j \<and> one_votes idx gamma P j = 0) \<longrightarrow>
                 zeta2 ! j = keyed_bit H key
                   (chaos_msg ''KBit|v1'' j (one_votes idx gamma P j) (zero_votes idx gamma P j))))"
  unfolding code_builder_result [OF assms]
  by (simp add: decide_bit_def)

theorem code_builder_bits_witness:
  "(\<exists>zeta2. code_builder sum_hash [1, 0, 1] 2 ''k'' [0, 1, 2] = Some (Inr zeta2)
       \<and> length zeta2 = 2 \<and> zeta2 ! 0 = 0 \<and> zeta2 ! 1 = 1)
   \<and> (\<exists>zeta2. code_builder sum_hash [1, 0, 0] 2 ''k'' [0, 1, 2] = Some (Inr zeta2)
       \<and> length zeta2 = 2 \<and> zeta2 ! 0 = 0
       \<and> zeta2 ! 1 = keyed_bit sum_hash ''k'' (chaos_msg ''KBit|v1'' 1 1 1))"
proof -
  let ?idx = "\<lambda>p. [1, 0, 1 :: nat] ! p"
  have h1: "\<forall>p \<in> set [0, 1, 2]. keyed_index sum_hash p 2 ''k'' = Some (Inr (?idx p))
              \<and> p < length [1, 0, 1 :: int]"
    by code_simp
  have h2: "\<forall>p \<in> set [0, 1, 2]. keyed_index sum_hash p 2 ''k'' = Some (Inr (?idx p))
              \<and> p < length [1, 0, 0 :: int]"
    by code_simp
  have v1: "one_votes ?idx [1, 0, 1] [0, 1, 2] 0 = 0" "zero_votes ?idx [1, 0, 1] [0, 1, 2] 0 = 1"
    "one_votes ?idx [1, 0, 1] [0, 1, 2] 1 = 2" "zero_votes ?idx [1, 0, 1] [0, 1, 2] 1 = 0"
    by code_simp+
  have v2: "one_votes ?idx [1, 0, 0] [0, 1, 2] 0 = 0" "zero_votes ?idx [1, 0, 0] [0, 1, 2] 0 = 1"
    "one_votes ?idx [1, 0, 0] [0, 1, 2] 1 = 1" "zero_votes ?idx [1, 0, 0] [0, 1, 2] 1 = 1"
    by code_simp+
  have n: "(0::nat) < nat 2" "(1::nat) < nat 2" by simp_all
  from code_builder_bits [OF h1] obtain a where
    a: "code_builder sum_hash [1, 0, 1] 2 ''k'' [0, 1, 2] = Some (Inr a)" "length a = nat 2" and
    av: "\<forall>j < nat 2.
                (0 < one_votes ?idx [1, 0, 1] [0, 1, 2] j \<and> zero_votes ?idx [1, 0, 1] [0, 1, 2] j = 0
                   \<longrightarrow> a ! j = 1)
              \<and> (0 < zero_votes ?idx [1, 0, 1] [0, 1, 2] j \<and> one_votes ?idx [1, 0, 1] [0, 1, 2] j = 0
                   \<longrightarrow> a ! j = 0)"
    by blast
  from av n(1) v1 have a0: "a ! 0 = 0" by simp
  from av n(2) v1 have a1: "a ! 1 = 1" by simp
  from code_builder_bits [OF h2] obtain b where
    b: "code_builder sum_hash [1, 0, 0] 2 ''k'' [0, 1, 2] = Some (Inr b)" "length b = nat 2" and
    bv: "\<forall>j < nat 2.
               (0 < zero_votes ?idx [1, 0, 0] [0, 1, 2] j \<and> one_votes ?idx [1, 0, 0] [0, 1, 2] j = 0
                   \<longrightarrow> b ! j = 0)
              \<and> (\<not> (0 < one_votes ?idx [1, 0, 0] [0, 1, 2] j \<and> zero_votes ?idx [1, 0, 0] [0, 1, 2] j = 0)
                   \<and> \<not> (0 < zero_votes ?idx [1, 0, 0] [0, 1, 2] j \<and> one_votes ?idx [1, 0, 0] [0, 1, 2] j = 0)
                   \<longrightarrow> b ! j = keyed_bit sum_hash ''k''
                   (chaos_msg ''KBit|v1'' j (one_votes ?idx [1, 0, 0] [0, 1, 2] j)
                      (zero_votes ?idx [1, 0, 0] [0, 1, 2] j)))"
    by blast
  from bv n(1) v2 have b0: "b ! 0 = 0" by simp
  from bv n(2) v2 have b1: "b ! 1 = keyed_bit sum_hash ''k'' (chaos_msg ''KBit|v1'' 1 1 1)"
    by simp
  from a a0 a1 b b0 b1 show ?thesis by simp
qed

subsection \<open>Digit conversions\<close>

lemma int_to_digits_loop_step:
  "0 < n \<Longrightarrow> 2 \<le> b \<Longrightarrow>
   int_to_digits_loop n b acc = int_to_digits_loop (n div b) b (acc @ [n mod b])"
  by (subst int_to_digits_loop.simps) simp

lemma int_to_digits_loop_stop:
  "\<not> (0 < n \<and> 2 \<le> b) \<Longrightarrow> int_to_digits_loop n b acc = acc"
  by (subst int_to_digits_loop.simps) auto

lemma div_decreases:
  "0 < n \<Longrightarrow> 2 \<le> b \<Longrightarrow> nat (n div b) < nat n \<and> 0 \<le> n div b"
  by (simp add: int_div_less_self pos_imp_zdiv_nonneg_iff nat_less_iff)

lemma int_to_digits_loop_acc:
  "int_to_digits_loop n b acc = acc @ int_to_digits_loop n b []"
proof (induction "nat n" arbitrary: n acc rule: less_induct)
  case less
  show ?case
  proof (cases "0 < n \<and> 2 \<le> b")
    case True
    then have lt: "nat (n div b) < nat n" using div_decreases by simp
    have "int_to_digits_loop n b acc = int_to_digits_loop (n div b) b (acc @ [n mod b])"
      using True by (simp add: int_to_digits_loop_step)
    also have "\<dots> = (acc @ [n mod b]) @ int_to_digits_loop (n div b) b []"
      using less [OF lt] .
    also have "\<dots> = acc @ ([n mod b] @ int_to_digits_loop (n div b) b [])"
      by simp
    also have "[n mod b] @ int_to_digits_loop (n div b) b []
                 = int_to_digits_loop (n div b) b ([] @ [n mod b])"
      using less [OF lt, of "[] @ [n mod b]"] by simp
    also have "\<dots> = int_to_digits_loop n b []"
      using True by (simp add: int_to_digits_loop_step)
    finally show ?thesis .
  next
    case False
    then show ?thesis by (simp add: int_to_digits_loop_stop)
  qed
qed

lemma int_to_digits_loop_Cons:
  assumes "0 < n" and "2 \<le> b"
  shows "int_to_digits_loop n b [] = (n mod b) # int_to_digits_loop (n div b) b []"
proof -
  have "int_to_digits_loop n b [] = int_to_digits_loop (n div b) b ([] @ [n mod b])"
    using assms by (rule int_to_digits_loop_step)
  also have "\<dots> = ([] @ [n mod b]) @ int_to_digits_loop (n div b) b []"
    by (rule int_to_digits_loop_acc)
  finally show ?thesis by simp
qed

lemma digits_to_int_loop_snoc:
  "digits_to_int_loop (xs @ [d]) b acc =
     (case digits_to_int_loop xs b acc of
        Inl e \<Rightarrow> Inl e
      | Inr v \<Rightarrow> digits_to_int_loop [d] b v)"
  by (induction xs arbitrary: acc) auto

lemma digits_roundtrip_loop:
  assumes "2 \<le> b"
  shows "0 \<le> n \<Longrightarrow> digits_to_int_loop (rev (int_to_digits_loop n b [])) b 0 = Inr n"
proof (induction "nat n" arbitrary: n rule: less_induct)
  case less
  show ?case
  proof (cases "0 < n")
    case False
    with less.prems have "n = 0" by simp
    then show ?thesis by (simp add: int_to_digits_loop_stop)
  next
    case True
    from div_decreases [OF True assms] have lt: "nat (n div b) < nat n" and nn: "0 \<le> n div b"
      by simp_all
    have ih: "digits_to_int_loop (rev (int_to_digits_loop (n div b) b [])) b 0 = Inr (n div b)"
      using less.hyps [OF lt nn] .
    have m: "0 \<le> n mod b" "n mod b < b" using assms by simp_all
    have "digits_to_int_loop (rev (int_to_digits_loop n b [])) b 0
            = digits_to_int_loop (rev (int_to_digits_loop (n div b) b []) @ [n mod b]) b 0"
      using True assms by (simp add: int_to_digits_loop_Cons)
    also have "\<dots> = digits_to_int_loop [n mod b] b (n div b)"
      by (simp add: digits_to_int_loop_snoc ih)
    also have "\<dots> = Inr (n div b * b + n mod b)"
      using m by simp
    finally show ?thesis by simp
  qed
qed

lemma digits_to_int_loop_zeros:
  "0 < b \<Longrightarrow> digits_to_int_loop (replicate k 0 @ xs) b 0 = digits_to_int_loop xs b 0"
  by (induction k) auto

lemma int_to_digits_nonempty:
  "int_to_digits n b = Inr ds \<Longrightarrow> ds \<noteq> []"
  by (auto simp: int_to_digits_def int_to_digits_loop_Cons split: if_splits)

lemma int_to_digits_value:
  assumes "int_to_digits n b = Inr ds"
  shows "digits_to_int ds b = Inr n"
proof -
  from assms have b: "2 \<le> b" and n: "0 \<le> n"
    by (auto simp: int_to_digits_def split: if_splits)
  have ne: "ds \<noteq> []" using assms by (rule int_to_digits_nonempty)
  show ?thesis
  proof (cases "n = 0")
    case True
    with assms b have "ds = [0]" by (simp add: int_to_digits_def)
    then show ?thesis using b True by (simp add: digits_to_int_def)
  next
    case False
    with assms b n have "ds = rev (int_to_digits_loop n b [])"
      by (simp add: int_to_digits_def)
    then show ?thesis
      using digits_roundtrip_loop [OF b n] b ne by (simp add: digits_to_int_def)
  qed
qed


lemma bits_from_int_value:
  assumes "bits_from_int zeta eta = Inr zeta2"
  shows "0 < eta \<and> 0 \<le> zeta \<and> length zeta2 = nat eta \<and> digits_to_int zeta2 2 = Inr zeta"
proof -
  from assms have e: "0 < eta"
    by (auto simp: bits_from_int_def split: if_splits)
  from assms e obtain bits where
    b: "int_to_digits zeta 2 = Inr bits" and l: "int (length bits) \<le> eta" and
    z: "zeta2 = replicate (nat (eta - int (length bits))) 0 @ bits"
    by (auto simp: bits_from_int_def split: sum.splits if_splits)
  from b have nn: "0 \<le> zeta" by (auto simp: int_to_digits_def split: if_splits)
  have ne: "bits \<noteq> []" using b by (rule int_to_digits_nonempty)
  from int_to_digits_value [OF b] ne have "digits_to_int_loop bits 2 0 = Inr zeta"
    by (simp add: digits_to_int_def)
  then have "digits_to_int zeta2 2 = Inr zeta"
    using ne unfolding z by (simp add: digits_to_int_def digits_to_int_loop_zeros)
  moreover have "length zeta2 = nat eta" using l unfolding z by simp
  ultimately show ?thesis using e nn by simp
qed


subsection \<open>Preparing parameters\<close>


lemma prepare_parameters_Inr_D:
  assumes "prepare_parameters H params key zeta eta = Some (Inr r)"
  shows "0 \<le> zeta
    \<and> (\<exists>P zeta2 gamma.
          compute_permutation H (int (length params)) key eta = Some (Inr P)
        \<and> prep_permutation r = map int P
        \<and> bits_from_int zeta eta = Inr zeta2
        \<and> scatter_loop H zeta2 eta key P (replicate (length params div 2) 0)
            = Some (Inr gamma)
        \<and> embed_loop gamma P params = Inr (watermarked_params r))
    \<and> prep_eta r = eta"
  using assms
  by (auto simp: prepare_parameters_def Let_def split: if_splits option.splits sum.splits)






subsection \<open>The round trip\<close>

lemma scatter_loop_result:
  assumes "scatter_loop H zeta2 eta key P g = Some (Inr g')"
    and "\<forall>p \<in> set P. keyed_index H p eta key = Some (Inr (idx p))"
  shows "length g' = length g
         \<and> (\<forall>p \<in> set P. p < length g \<and> idx p < length zeta2 \<and> g' ! p = zeta2 ! idx p)
         \<and> (\<forall>q. q \<notin> set P \<longrightarrow> g' ! q = g ! q)"
  using assms
proof (induction P arbitrary: g)
  case Nil
  then show ?case by simp
next
  case (Cons p ps)
  from Cons.prems(2) have ki: "keyed_index H p eta key = Some (Inr (idx p))"
    and rest: "\<forall>q \<in> set ps. keyed_index H q eta key = Some (Inr (idx q))"
    by simp_all
  let ?h = "g[p := zeta2 ! idx p]"
  from Cons.prems(1) ki have jr: "idx p < length zeta2" and pg: "p < length g"
    and l: "scatter_loop H zeta2 eta key ps ?h = Some (Inr g')"
    by (auto split: if_splits)
  from Cons.IH [OF l rest] have
    len: "length g' = length ?h" and
    vals: "\<forall>q \<in> set ps. q < length ?h \<and> idx q < length zeta2 \<and> g' ! q = zeta2 ! idx q" and
    un: "\<forall>q. q \<notin> set ps \<longrightarrow> g' ! q = ?h ! q"
    by blast+
  have hp: "g' ! p = zeta2 ! idx p"
  proof (cases "p \<in> set ps")
    case True then show ?thesis using vals by blast
  next
    case False then show ?thesis using un pg by simp
  qed
  have v2: "\<forall>q \<in> set (p # ps). q < length g \<and> idx q < length zeta2 \<and> g' ! q = zeta2 ! idx q"
    using hp vals jr pg by simp
  have u2: "\<forall>q. q \<notin> set (p # ps) \<longrightarrow> g' ! q = g ! q"
    using un by simp
  from len v2 u2 show ?case by simp
qed

lemma compute_permutation_covers:
  assumes "compute_permutation H (int n) key eta = Some (Inr P)"
  shows "0 < eta \<and> distinct P \<and> set P = {0..<n div 2}
         \<and> (\<exists>idx. (\<forall>p \<in> set P. keyed_index H p eta key = Some (Inr (idx p)))
                \<and> (\<forall>j < nat eta. \<exists>p \<in> set P. idx p = j))"
proof -
  from compute_permutation_Inr [OF assms] obtain js where
    e: "0 < eta" and
    kp: "keyed_permutation H (prng_seed H key) (int n div 2) = Some (Inr P)" and
    js: "map_res (\<lambda>p. keyed_index H p eta key) P = Some (Inr js)" and
    c: "eta \<le> int (card (set js))"
    by blast
  from keyed_permutation_is_permutation [OF kp]
  have d: "distinct P" and s: "set P = {0..<nat (int n div 2)}" by simp_all
  have "nat (int n div 2) = n div 2" by (simp add: zdiv_int [symmetric])
  with s have s': "set P = {0..<n div 2}" by simp
  from js have a2: "list_all2 (\<lambda>p j. keyed_index H p eta key = Some (Inr j)) P js"
    by (simp add: map_res_Inr_iff)
  then have "\<forall>p \<in> set P. \<exists>j. keyed_index H p eta key = Some (Inr j)"
    by (auto simp: list_all2_conv_all_nth in_set_conv_nth)
  then obtain idx where idx: "\<forall>p \<in> set P. keyed_index H p eta key = Some (Inr (idx p))"
    by metis
  have "js = map idx P"
  proof (rule nth_equalityI)
    show "length js = length (map idx P)" using a2 by (simp add: list_all2_lengthD)
  next
    fix k assume k: "k < length js"
    with a2 have "keyed_index H (P ! k) eta key = Some (Inr (js ! k))"
      by (simp add: list_all2_conv_all_nth)
    moreover from k a2 have "P ! k \<in> set P" by (simp add: list_all2_lengthD)
    ultimately show "js ! k = map idx P ! k"
      using idx k a2 by (auto simp: list_all2_lengthD)
  qed
  then have sj: "set js = idx ` set P" by simp
  have sub: "idx ` set P \<subseteq> {0..<nat eta}"
  proof
    fix j assume "j \<in> idx ` set P"
    then obtain p where "p \<in> set P" and "j = idx p" by blast
    with idx keyed_index_Inr [of H p eta key "idx p"] show "j \<in> {0..<nat eta}" by auto
  qed
  have "card {0..<nat eta} \<le> card (idx ` set P)" using c sj by simp
  with sub have "idx ` set P = {0..<nat eta}"
    by (intro card_seteq) simp_all
  then have "\<forall>j < nat eta. \<exists>p \<in> set P. idx p = j"
    by (metis atLeastLessThan_iff imageE zero_le)
  with e d s' idx show ?thesis by blast
qed

lemma encode_watermark_returns:
  "ds \<noteq> [] \<Longrightarrow> \<exists>h g. encode_watermark ds = Inr (h, g)"
  by (simp add: encode_watermark_def Let_def)

lemma votes_recover_bit:
  assumes cov: "\<exists>p \<in> set P. idx p = j"
    and vote: "\<forall>p \<in> set P. idx p = j \<longrightarrow> g ! p = b"
    and bit: "b = 0 \<or> b = 1"
  shows "decide_bit H key lab j (one_votes idx g P j) (zero_votes idx g P j) = b"
proof (cases "b = 1")
  case True
  have "filter (\<lambda>p. idx p = j \<and> g ! p \<noteq> 1) P = []"
    using vote True by (auto simp: filter_empty_conv)
  then have z: "zero_votes idx g P j = 0" by (simp add: zero_votes_def)
  from cov vote True have "\<exists>p \<in> set P. idx p = j \<and> g ! p = 1" by auto
  then have "filter (\<lambda>p. idx p = j \<and> g ! p = 1) P \<noteq> []"
    by (simp add: filter_empty_conv)
  then have o: "0 < one_votes idx g P j" by (simp add: one_votes_def)
  from z o True show ?thesis by (simp add: decide_bit_def)
next
  case False
  with bit have b0: "b = 0" by simp
  have "filter (\<lambda>p. idx p = j \<and> g ! p = 1) P = []"
    using vote b0 by (auto simp: filter_empty_conv)
  then have o: "one_votes idx g P j = 0" by (simp add: one_votes_def)
  from cov vote b0 have "\<exists>p \<in> set P. idx p = j \<and> g ! p \<noteq> 1" by auto
  then have "filter (\<lambda>p. idx p = j \<and> g ! p \<noteq> 1) P \<noteq> []"
    by (simp add: filter_empty_conv)
  then have z: "0 < zero_votes idx g P j" by (simp add: zero_votes_def)
  from z o b0 show ?thesis by (simp add: decide_bit_def)
qed

lemma prepare_then_build:
  assumes "prepare_parameters H params key zeta eta = Some (Inr r)"
  shows "restore_params_from_pairs (watermarked_params r) (prep_permutation r) = Inr params
    \<and> (\<exists>ds h g. int_to_digits zeta 6 = Inr ds \<and> encode_watermark ds = Inr (h, g)
          \<and> build_watermark_graph H (watermarked_params r) key eta
              = Some (Inr \<lparr>graph_store = h, graph_head = g,
                           build_permutation = prep_permutation r, build_eta = eta\<rparr>))"
proof -
  let ?W = "watermarked_params r"
  let ?n = "length params div 2"
  from prepare_parameters_Inr_D [OF assms] obtain P zeta2 gamma where
    cp: "compute_permutation H (int (length params)) key eta = Some (Inr P)" and
    pp: "prep_permutation r = map int P" and
    bits: "bits_from_int zeta eta = Inr zeta2" and
    sc: "scatter_loop H zeta2 eta key P (replicate ?n 0) = Some (Inr gamma)" and
    em: "embed_loop gamma P params = Inr ?W"
    by blast
  from compute_permutation_covers [OF cp] obtain idx where
    d: "distinct P" and sp: "set P = {0..<?n}" and
    idx: "\<forall>p \<in> set P. keyed_index H p eta key = Some (Inr (idx p))" and
    cov: "\<forall>j < nat eta. \<exists>p \<in> set P. idx p = j"
    by blast
  from bits_from_int_value [OF bits] have
    zn: "0 \<le> zeta" and zl: "length zeta2 = nat eta" and zv: "digits_to_int zeta2 2 = Inr zeta"
    by simp_all
  have len: "length ?W = length params" using em by (rule embed_loop_length)
  \<comment> \<open>restoring\<close>
  have rest: "restore_params_from_pairs ?W (prep_permutation r) = Inr params"
    unfolding restore_params_from_pairs_def pp using em d by (rule restore_after_embed)
  \<comment> \<open>the scattered hints, and what the embedding leaves in the pairs\<close>
  from scatter_loop_result [OF sc idx] have
    gl: "length gamma = ?n" and gv: "\<forall>p \<in> set P. gamma ! p = zeta2 ! idx p"
    by simp_all
  note er = embed_loop_result [OF em d]
  have par: "(?W ! (2 * p) - ?W ! (2 * p + 1)) mod 2 = gamma ! p \<and> (gamma ! p = 0 \<or> gamma ! p = 1)"
    if "p \<in> set P" for p
  proof -
    from er that have "embed_bit (params ! (2 * p)) (params ! (2 * p + 1)) (gamma ! p)
                = Inr \<lparr>x_embedded = ?W ! (2 * p), y_embedded = ?W ! (2 * p + 1)\<rparr>"
      by blast
    from embed_bit_Inr_D [OF this] show ?thesis by simp
  qed
  \<comment> \<open>detection\<close>
  have rng: "\<forall>p \<in> set P. 2 * p + 1 < length ?W \<and> p < length (replicate (length ?W div 2) (0::int))"
    using er sp len by auto
  from hints_loop_result [OF rng] obtain g' where
    hl: "hints_loop ?W (map int P) (replicate (length ?W div 2) 0) = Inr g'" and
    hlen: "length g' = length ?W div 2" and
    hv: "\<forall>p \<in> set P. g' ! p = (?W ! (2 * p) - ?W ! (2 * p + 1)) mod 2"
    by auto
  have hd: "hints_detection ?W (map int P) = Inr g'"
    using hl by (simp add: hints_detection_def Let_def)
  have same: "\<forall>p \<in> set P. g' ! p = zeta2 ! idx p"
    using hv par gv by simp
  \<comment> \<open>rebuilding the bits\<close>
  have pre: "\<forall>p \<in> set P. keyed_index H p eta key = Some (Inr (idx p)) \<and> p < length g'"
    using idx sp hlen len by auto
  have "map (\<lambda>j. decide_bit H key ''KBit|v1'' j (one_votes idx g' P j) (zero_votes idx g' P j))
          [0..<nat eta] = zeta2"
  proof (rule nth_equalityI)
    show "length (map (\<lambda>j. decide_bit H key ''KBit|v1'' j (one_votes idx g' P j)
              (zero_votes idx g' P j)) [0..<nat eta]) = length zeta2"
      using zl by simp
  next
    fix j assume "j < length (map (\<lambda>j. decide_bit H key ''KBit|v1'' j (one_votes idx g' P j)
              (zero_votes idx g' P j)) [0..<nat eta])"
    then have j: "j < nat eta" by simp
    from cov j obtain p0 where p0: "p0 \<in> set P" "idx p0 = j" by blast
    have c1: "\<exists>p \<in> set P. idx p = j" using p0 by blast
    have c2: "\<forall>p \<in> set P. idx p = j \<longrightarrow> g' ! p = zeta2 ! j" using same by auto
    have "zeta2 ! j = gamma ! p0" using gv p0 by simp
    then have c3: "zeta2 ! j = 0 \<or> zeta2 ! j = 1" using par [OF p0(1)] by simp
    from votes_recover_bit [OF c1 c2 c3, of H key "''KBit|v1''"] j
    show "map (\<lambda>j. decide_bit H key ''KBit|v1'' j (one_votes idx g' P j)
              (zero_votes idx g' P j)) [0..<nat eta] ! j = zeta2 ! j"
      by simp
  qed
  with code_builder_result [OF pre] have cb: "code_builder H g' eta key P = Some (Inr zeta2)"
    by simp
  \<comment> \<open>the digits and the graph\<close>
  from int_to_digits_returns [OF zn] obtain ds where ds: "int_to_digits zeta 6 = Inr ds" by blast
  have bc: "base_convert_digits zeta2 2 6 = Inr ds"
    using zv ds by (simp add: base_convert_digits_def)
  from encode_watermark_returns [OF int_to_digits_nonempty [OF ds]]
  obtain h g where en: "encode_watermark ds = Inr (h, g)" by blast
  have "build_watermark_graph H ?W key eta
              = Some (Inr \<lparr>graph_store = h, graph_head = g,
                           build_permutation = prep_permutation r, build_eta = eta\<rparr>)"
    using cp hd cb bc en by (simp add: build_watermark_graph_def len pp)
  with rest ds en show ?thesis by blast
qed

lemma verify_code_two:
  "(case encode_watermark [2] of
      Inl e \<Rightarrow> False
    | Inr (h, g) \<Rightarrow>
        controller_verify h g 2
          = Inr \<lparr>is_authentic = False, recovered_zeta = Some 1, recovered_zeta6 = Some [1],
                 error = None\<rparr>)"
  by code_simp

text \<open>
  C1. The first half of the round trip holds: restoring what \<open>prepare_parameters\<close>
  returned gives back the parameter list (\<open>prepare_then_build\<close>, for every code). The
  second half fails for the code \<open>zeta = 2\<close>: whatever the keyed hash, the key, the
  parameter list and \<open>eta\<close>, if \<open>prepare_parameters\<close> succeeds (so \<open>eta \<ge> 2\<close> and
  coverage holds), then \<open>build_watermark_graph\<close> succeeds on the watermarked list with
  the same permutation, and \<open>controller_verify\<close> against 2 answers not authentic, with
  recovered code 1. The graph of the one-digit array \<open>[2]\<close> decodes to \<open>[1]\<close>. (For the
  codes whose base-6 digits do not exceed their number, all codes from \<open>6 ^ 4\<close> on
  among them, the second half holds: \<open>round_trip_large_code\<close> below.)
\<close>

theorem authentic_code_two_rejected:
  assumes "prepare_parameters H params key 2 eta = Some (Inr r)"
  shows "restore_params_from_pairs (watermarked_params r) (prep_permutation r) = Inr params
    \<and> (\<exists>b. build_watermark_graph H (watermarked_params r) key eta = Some (Inr b)
          \<and> build_permutation b = prep_permutation r
          \<and> controller_verify (graph_store b) (graph_head b) 2
              = Inr \<lparr>is_authentic = False, recovered_zeta = Some 1, recovered_zeta6 = Some [1],
                     error = None\<rparr>)"
proof -
  from prepare_then_build [OF assms] obtain ds h g where
    rest: "restore_params_from_pairs (watermarked_params r) (prep_permutation r) = Inr params" and
    ds: "int_to_digits 2 6 = Inr ds" and en: "encode_watermark ds = Inr (h, g)" and
    bw: "build_watermark_graph H (watermarked_params r) key eta
              = Some (Inr \<lparr>graph_store = h, graph_head = g,
                           build_permutation = prep_permutation r, build_eta = eta\<rparr>)"
    by blast
  have "int_to_digits 2 6 = Inr [2]" by code_simp
  with ds have "ds = [2]" by simp
  with en verify_code_two have
    "controller_verify h g 2
          = Inr \<lparr>is_authentic = False, recovered_zeta = Some 1, recovered_zeta6 = Some [1],
                 error = None\<rparr>"
    by simp
  with rest bw show ?thesis by simp
qed

theorem authentic_code_two_rejected_witness:
  "prepare_parameters sum_hash [10, 3, - 4, 7] ''k'' 2 2
     = Some (Inr \<lparr>watermarked_params = [13, - 1, - 9, 12], prep_permutation = [0, 1],
                  prep_eta = 2\<rparr>)
   \<and> restore_params_from_pairs [13, - 1, - 9, 12] [0, 1] = Inr [10, 3, - 4, 7]
   \<and> (\<exists>b. build_watermark_graph sum_hash [13, - 1, - 9, 12] ''k'' 2 = Some (Inr b)
          \<and> build_permutation b = [0, 1]
          \<and> controller_verify (graph_store b) (graph_head b) 2
              = Inr \<lparr>is_authentic = False, recovered_zeta = Some 1, recovered_zeta6 = Some [1],
                     error = None\<rparr>)"
proof -
  have p: "prepare_parameters sum_hash [10, 3, - 4, 7] ''k'' 2 2
     = Some (Inr \<lparr>watermarked_params = [13, - 1, - 9, 12], prep_permutation = [0, 1],
                  prep_eta = 2\<rparr>)"
    by code_simp
  from authentic_code_two_rejected [OF p] p show ?thesis by simp
qed

subsection \<open>Where the graph does give the digits back\<close>

lemma fold_fun_upd_range:
  "fold (\<lambda>r h. h(r := F r (h r))) [0..<k] h0 = (\<lambda>a. if a < k then F a (h0 a) else h0 a)"
proof (induction k)
  case 0
  then show ?case by simp
next
  case (Suc k)
  show ?case
    unfolding upt_Suc_append [OF le0] fold_append comp_def Suc.IH
    by (auto simp: fun_eq_iff)
qed

lemma encode_watermark_heap:
  assumes "ds \<noteq> []"
  shows "encode_watermark ds = Inr (ring_heap ds, 0)"
proof -
  let ?mu = "length ds"
  have mu: "0 < ?mu" using assms by simp
  let ?F1 = "\<lambda>r (n::node). n\<lparr>node_next := Some ((r + 1) mod ?mu)\<rparr>"
  let ?F2 = "\<lambda>r (n::node). n\<lparr>node_digit := (if ds ! r = 0 then None
                          else Some (nat ((int r + ds ! r - 1) mod int ?mu)))\<rparr>"
  have f1: "fold (\<lambda>r h. h([0..<?mu] ! r := (h ([0..<?mu] ! r))
                 \<lparr>node_next := Some ([0..<?mu] ! ((r + 1) mod ?mu))\<rparr>)) [0..<?mu] h0
            = fold (\<lambda>r h. h(r := ?F1 r (h r))) [0..<?mu] h0" for h0 :: heap
    by (rule fold_cong) (use mu in auto)
  have t: "nat ((int r + d - 1) mod int ?mu) < ?mu" for r d
    using mu by (simp add: nat_less_iff)
  have f2: "fold (\<lambda>r h.
                         if ds ! r = 0 then h([0..<?mu] ! r := (h ([0..<?mu] ! r))\<lparr>node_digit := None\<rparr>)
                         else h([0..<?mu] ! r := (h ([0..<?mu] ! r))
                                  \<lparr>node_digit := Some ([0..<?mu] ! nat ((int r + ds ! r - 1) mod int ?mu))\<rparr>))
                   [0..<?mu] h1
            = fold (\<lambda>r h. h(r := ?F2 r (h r))) [0..<?mu] h1" for h1 :: heap
    by (rule fold_cong) (use t in auto)
  have "encode_watermark ds
          = Inr (fold (\<lambda>r h. h(r := ?F2 r (h r))) [0..<?mu]
                  (fold (\<lambda>r h. h(r := ?F1 r (h r))) [0..<?mu] (\<lambda>a. new_node)), 0)"
    using mu unfolding encode_watermark_def Let_def f1 f2 by simp
  also have "\<dots> = Inr (ring_heap ds, 0)"
    by (simp only: fold_fun_upd_range [where F = "?F1"] fold_fun_upd_range [where F = "?F2"])
       (auto simp: ring_heap_def fun_eq_iff new_node_def)
  finally show ?thesis .
qed

lemma ring_heap_next:
  "a < length ds \<Longrightarrow> node_next (ring_heap ds a) = Some ((a + 1) mod length ds)"
  by (simp add: ring_heap_def)

lemma ring_loop_ring_heap:
  "c + k < length ds \<Longrightarrow>
   ring_loop (ring_heap ds) k c nodes = Inr (nodes @ [c + 1..<c + k + 1])"
proof (induction k arbitrary: c nodes)
  case 0
  then show ?case by simp
next
  case (Suc k)
  then have c: "c < length ds" and c1: "(c + 1) mod length ds = c + 1" by simp_all
  have "ring_loop (ring_heap ds) (Suc k) c nodes
          = ring_loop (ring_heap ds) k (c + 1) (nodes @ [c + 1])"
    using ring_heap_next [OF c] c1 by simp
  also have "\<dots> = Inr ((nodes @ [c + 1]) @ [c + 1 + 1..<c + 1 + k + 1])"
    using Suc.prems by (intro Suc.IH) simp
  also have "(nodes @ [c + 1]) @ [c + 1 + 1..<c + 1 + k + 1] = nodes @ [c + 1..<c + Suc k + 1]"
    by (simp add: upt_rec [of "Suc c"])
  finally show ?case .
qed

lemma mod_shift_neq:
  assumes "i < m" and "m < (n::nat)"
  shows "(r + i) mod n \<noteq> (r + m) mod n"
proof
  assume e: "(r + i) mod n = (r + m) mod n"
  have "r + i \<le> r + m" using assms(1) by simp
  from mod_eq_dvd_iff_nat [OF this, of n] e have "n dvd (r + m) - (r + i)" by simp
  then have "n dvd m - i" by simp
  moreover have "0 < m - i" and "m - i < n" using assms by simp_all
  ultimately show False by (simp add: nat_dvd_not_less)
qed

lemma probe_loop_ring_heap:
  assumes "m < length ds"
  shows "i \<le> m \<Longrightarrow>
     probe_loop (ring_heap ds) ((r + m) mod length ds) (length ds) ((r + i) mod length ds) i = Inr m"
proof (induction "m - i" arbitrary: i)
  case 0
  then have "i = m" by simp
  then show ?case by (subst probe_loop.simps) simp
next
  case (Suc d)
  then have lt: "i < m" by simp
  let ?n = "length ds"
  have n: "0 < ?n" using assms by linarith
  have ne: "(r + i) mod ?n \<noteq> (r + m) mod ?n"
    using lt assms by (rule mod_shift_neq)
  have a: "(r + i) mod ?n < ?n" using n by simp
  have nx: "node_next (ring_heap ds ((r + i) mod ?n)) = Some ((r + (i + 1)) mod ?n)"
    using ring_heap_next [OF a] by (simp add: mod_Suc_eq)
  have s: "\<not> i + 1 > ?n" using lt assms by simp
  have ih: "probe_loop (ring_heap ds) ((r + m) mod ?n) ?n ((r + (i + 1)) mod ?n) (i + 1) = Inr m"
    using Suc.hyps lt by (intro Suc.hyps(1)) simp_all
  show ?case
    by (subst probe_loop.simps) (use ne nx s ih in simp)
qed

lemma digit_loop_ring_heap:
  assumes "\<forall>r \<in> set rs. r < length ds \<and> 0 \<le> ds ! r \<and> ds ! r \<le> int (length ds)"
  shows "digit_loop (ring_heap ds) (length ds) [0..<length ds] rs z
           = Inr (fold (\<lambda>r z. z[r := ds ! r]) rs z)"
  using assms
proof (induction rs arbitrary: z)
  case Nil
  then show ?case by simp
next
  case (Cons r rs)
  let ?n = "length ds"
  from Cons.prems have r: "r < ?n" and d0: "0 \<le> ds ! r" and dn: "ds ! r \<le> int ?n"
    and rest: "\<forall>q \<in> set rs. q < ?n \<and> 0 \<le> ds ! q \<and> ds ! q \<le> int ?n"
    by simp_all
  have nr: "[0..<?n] ! r = r" using r by simp
  show ?case
  proof (cases "ds ! r = 0")
    case True
    then have "node_digit (ring_heap ds r) = None" using r by (simp add: ring_heap_def)
    then show ?thesis using nr True Cons.IH [OF rest] by simp
  next
    case False
    let ?m = "nat (ds ! r - 1)"
    from False d0 dn have m: "?m < ?n" and md: "int ?m + 1 = ds ! r" by linarith+
    have "int r + ds ! r - 1 = int (r + ?m)" using md by simp
    then have "(int r + ds ! r - 1) mod int ?n = int ((r + ?m) mod ?n)"
      by (simp only: zmod_int)
    then have t: "nat ((int r + ds ! r - 1) mod int ?n) = (r + ?m) mod ?n" by simp
    have dg: "node_digit (ring_heap ds r) = Some ((r + ?m) mod ?n)"
      using r False t by (simp add: ring_heap_def)
    have "probe_loop (ring_heap ds) ((r + ?m) mod ?n) ?n ((r + 0) mod ?n) 0 = Inr ?m"
      using m by (intro probe_loop_ring_heap) simp_all
    then have pl: "probe_loop (ring_heap ds) ((r + ?m) mod ?n) ?n r 0 = Inr ?m"
      using r by simp
    show ?thesis
      using nr dg pl md Cons.IH [OF rest] by simp
  qed
qed

lemma decode_encode_when_digits_fit:
  assumes "ds \<noteq> []" and "\<forall>d \<in> set ds. 0 \<le> d \<and> d \<le> int (length ds)"
  shows "\<exists>h g. encode_watermark ds = Inr (h, g)
           \<and> decode_watermark h g (int (length ds)) = Inr ds"
proof -
  let ?n = "length ds"
  have n: "0 < ?n" using assms(1) by simp
  have "ring_loop (ring_heap ds) (?n - 1) 0 [0] = Inr ([0] @ [0 + 1..<0 + (?n - 1) + 1])"
    using n by (intro ring_loop_ring_heap) simp
  also have "[0] @ [0 + 1..<0 + (?n - 1) + 1] = [0..<?n]"
    using n by (simp add: upt_rec [of 0])
  finally have rl: "ring_loop (ring_heap ds) (?n - 1) 0 [0] = Inr [0..<?n]" .
  have "\<forall>r \<in> set [0..<?n]. r < ?n \<and> 0 \<le> ds ! r \<and> ds ! r \<le> int ?n"
    using assms(2) by simp
  from digit_loop_ring_heap [OF this]
  have "digit_loop (ring_heap ds) ?n [0..<?n] [0..<?n] (replicate ?n 0)
          = Inr (fold (\<lambda>r z. z[r := ds ! r]) [0..<?n] (replicate ?n 0))" .
  also have "fold (\<lambda>r z. z[r := ds ! r]) [0..<?n] (replicate ?n 0) = map (\<lambda>r. ds ! r) [0..<?n]"
    by (simp add: fold_update_range)
  also have "\<dots> = ds" by (rule map_nth)
  finally have dl: "digit_loop (ring_heap ds) ?n [0..<?n] [0..<?n] (replicate ?n 0) = Inr ds" .
  have "decode_watermark (ring_heap ds) 0 (int ?n) = Inr ds"
    using n rl dl by (simp add: decode_watermark_def)
  with encode_watermark_heap [OF assms(1)] show ?thesis by blast
qed

lemma int_to_digits_loop_range:
  assumes "2 \<le> b"
  shows "\<forall>d \<in> set (int_to_digits_loop n b []). 0 \<le> d \<and> d < b"
proof (induction "nat n" arbitrary: n rule: less_induct)
  case less
  show ?case
  proof (cases "0 < n")
    case False
    then show ?thesis by (simp add: int_to_digits_loop_stop)
  next
    case True
    from div_decreases [OF True assms] have lt: "nat (n div b) < nat n" by simp
    have m: "0 \<le> n mod b" "n mod b < b" using assms by simp_all
    have c: "int_to_digits_loop n b [] = (n mod b) # int_to_digits_loop (n div b) b []"
      using True assms by (rule int_to_digits_loop_Cons)
    from less [OF lt] m show ?thesis
      unfolding c by simp
  qed
qed

lemma digits_length_bound:
  assumes "2 \<le> b"
  shows "0 \<le> n \<Longrightarrow> n < b ^ length (int_to_digits_loop n b [])"
proof (induction "nat n" arbitrary: n rule: less_induct)
  case less
  show ?case
  proof (cases "0 < n")
    case False
    with less.prems have "n = 0" by simp
    then show ?thesis by (simp add: int_to_digits_loop_stop)
  next
    case True
    from div_decreases [OF True assms] have lt: "nat (n div b) < nat n" and nn: "0 \<le> n div b"
      by simp_all
    let ?l = "length (int_to_digits_loop (n div b) b [])"
    from less.hyps [OF lt nn] have "n div b + 1 \<le> b ^ ?l" by simp
    then have "b * (n div b + 1) \<le> b * b ^ ?l" using assms by simp
    moreover have "n < b * (n div b + 1)"
    proof -
      have e: "n = b * (n div b) + n mod b" by simp
      have "n mod b < b" using assms by simp
      with e have "n < b * (n div b) + b" by linarith
      then show ?thesis by (simp add: distrib_left)
    qed
    ultimately have "n < b * b ^ ?l" by linarith
    then show ?thesis using True assms by (simp add: int_to_digits_loop_Cons)
  qed
qed

lemma int_to_digits_six_fit:
  assumes "int_to_digits zeta 6 = Inr ds" and "6 ^ 4 \<le> zeta"
  shows "\<forall>d \<in> set ds. 0 \<le> d \<and> d \<le> int (length ds)"
proof -
  from assms(2) have z: "0 < zeta" by simp
  with assms(1) have ds: "ds = rev (int_to_digits_loop zeta 6 [])"
    by (simp add: int_to_digits_def)
  have "zeta < 6 ^ length (int_to_digits_loop zeta 6 [])"
    using z by (intro digits_length_bound) simp_all
  then have "zeta < 6 ^ length ds" unfolding ds by simp
  with assms(2) have lt: "(6::int) ^ 4 < 6 ^ length ds" by (rule le_less_trans)
  have one: "(1::int) < 6" by simp
  from power_less_imp_less_exp [OF one lt] have len: "4 < length ds" .
  have rng: "\<forall>d \<in> set ds. 0 \<le> d \<and> d < 6"
    unfolding ds using int_to_digits_loop_range [of 6 zeta] by simp
  show ?thesis
  proof
    fix d assume "d \<in> set ds"
    with rng have "0 \<le> d" and "d < 6" by blast+
    with len show "0 \<le> d \<and> d \<le> int (length ds)" by linarith
  qed
qed

lemma round_trip_when_digits_fit:
  assumes p: "prepare_parameters H params key zeta eta = Some (Inr r)"
    and ds: "int_to_digits zeta 6 = Inr ds"
    and fit: "\<forall>d \<in> set ds. 0 \<le> d \<and> d \<le> int (length ds)"
  shows "restore_params_from_pairs (watermarked_params r) (prep_permutation r) = Inr params
    \<and> (\<exists>b. build_watermark_graph H (watermarked_params r) key eta = Some (Inr b)
          \<and> build_permutation b = prep_permutation r
          \<and> controller_verify (graph_store b) (graph_head b) zeta
              = Inr \<lparr>is_authentic = True, recovered_zeta = Some zeta,
                     recovered_zeta6 = Some ds, error = None\<rparr>)"
proof -
  from prepare_then_build [OF p] ds obtain h g where
    rest: "restore_params_from_pairs (watermarked_params r) (prep_permutation r) = Inr params" and
    en: "encode_watermark ds = Inr (h, g)" and
    bw: "build_watermark_graph H (watermarked_params r) key eta
              = Some (Inr \<lparr>graph_store = h, graph_head = g,
                           build_permutation = prep_permutation r, build_eta = eta\<rparr>)"
    by auto
  have ne: "ds \<noteq> []" using ds by (rule int_to_digits_nonempty)
  from decode_encode_when_digits_fit [OF ne fit] en
  have de: "decode_watermark h g (int (length ds)) = Inr ds" by simp
  have zn: "\<not> zeta < 0" using ds by (auto simp: int_to_digits_def split: if_splits)
  have "controller_verify h g zeta
          = Inr \<lparr>is_authentic = True, recovered_zeta = Some zeta,
                 recovered_zeta6 = Some ds, error = None\<rparr>"
    using zn ds de int_to_digits_value [OF ds]
    by (simp add: controller_verify_def decode_and_convert_def)
  with rest bw show ?thesis by simp
qed

lemma round_trip_large_code:
  assumes "prepare_parameters H params key zeta eta = Some (Inr r)" and "6 ^ 4 \<le> zeta"
  shows "restore_params_from_pairs (watermarked_params r) (prep_permutation r) = Inr params
    \<and> (\<exists>b v. build_watermark_graph H (watermarked_params r) key eta = Some (Inr b)
          \<and> controller_verify (graph_store b) (graph_head b) zeta = Inr v
          \<and> is_authentic v \<and> recovered_zeta v = Some zeta)"
proof -
  from assms(2) have "0 \<le> zeta" by simp
  from int_to_digits_returns [OF this] obtain ds where ds: "int_to_digits zeta 6 = Inr ds"
    by blast
  from round_trip_when_digits_fit [OF assms(1) ds int_to_digits_six_fit [OF ds assms(2)]]
  obtain b where
    "restore_params_from_pairs (watermarked_params r) (prep_permutation r) = Inr params"
    "build_watermark_graph H (watermarked_params r) key eta = Some (Inr b)"
    "controller_verify (graph_store b) (graph_head b) zeta
              = Inr \<lparr>is_authentic = True, recovered_zeta = Some zeta,
                     recovered_zeta6 = Some ds, error = None\<rparr>"
    by blast
  then show ?thesis by simp
qed

end
